theory Spec2Isabelle
  imports Main "HOL-Library.Word" "HOL-Library.Monad_Syntax"
begin

section \<open>Preliminaries\<close>

declare Option.bind_cong [fundef_cong]

text \<open>
  The trees of this repository are C++ class templates over a key type \<open>K\<close> that is
  compared with \<open><\<close> and \<open>>\<close>; the key type is modelled by a type of class
  \<open>linorder\<close>.  A \<open>Node*\<close> is modelled by the value of the subtree it points to,
  \<open>nullptr\<close> by the constructor \<open>Null\<close>.  Every function that dereferences a pointer
  returns an \<open>option\<close>: \<open>None\<close> stands for the dereference of \<open>nullptr\<close> (undefined
  behaviour of the C++ program), or for a write past the end of a vector.
  \<open>size_t\<close> is a 64-bit word.
\<close>

type_synonym size_t = "64 word"

text \<open>
  Every class of the repository declares its own \<open>struct Node\<close> with a key, the
  balance information of the class (a balance factor, or a colour) and the pointers to the
  left and to the right child.  One datatype, with the balance information as a parameter,
  models them all.
\<close>

datatype ('k, 'm) node =
  Null | Node (key: 'k) (meta: 'm) (left: "('k, 'm) node") (right: "('k, 'm) node")

section \<open>avlTree.h\<close>

subsection \<open>Data model\<close>

text \<open>
  \<open>struct Node { K key; bal_t bal; Node *left, *right; }\<close> (build without
  \<open>PARENT\<close>); the balance field takes the values -1, 0 and 1.
\<close>

type_synonym 'k avl_node = "('k, int) node"

abbreviation bal :: "'k avl_node \<Rightarrow> int" where
  "bal \<equiv> meta"

text \<open>
  The compile-time options of avlTree.h that change the behaviour of the functions
  modelled here.  The default build defines none of them.
\<close>

record config =
  ENABLE_PREFERRED_TEST :: bool
  INVERT_PREFERRED_TEST :: bool
  DISABLE_FREED_LIST :: bool

definition default_build :: config where
  "default_build = \<lparr>ENABLE_PREFERRED_TEST = False, INVERT_PREFERRED_TEST = False,
                     DISABLE_FREED_LIST = False\<rparr>"

text \<open>
  Every class has the members \<open>root\<close> (the root of the tree), \<open>count\<close> (the
  number of nodes in the tree) and, unless \<open>DISABLE_FREED_LIST\<close> is defined,
  \<open>freed\<close>: the freed list is the chain of nodes that starts at \<open>freed\<close> and is
  linked through the \<open>left\<close> fields.  The fields \<open>news\<close> and \<open>deletes\<close> are not
  members of the classes: they count the calls of the operators \<open>new\<close> and
  \<open>delete\<close> on nodes, so that statements about the host allocator can be made.
\<close>

record ('k, 'm) tree =
  root :: "('k, 'm) node"
  count :: size_t
  freed :: "('k, 'm) node"
  news :: nat
  deletes :: nat

text \<open>
  The other members of \<open>class avlTree\<close>.  The members \<open>h\<close>, \<open>a\<close> and \<open>r\<close> are
  named \<open>flag_h\<close>, \<open>flag_a\<close> and \<open>flag_r\<close>; the others are the rotation counters.
\<close>

record 'k avlTree = "('k, int) tree" +
  flag_h :: bool
  flag_a :: bool
  flag_r :: bool
  lle :: size_t
  lre :: size_t
  rle :: size_t
  rre :: size_t
  lli :: size_t
  lri :: size_t
  rli :: size_t
  rri :: size_t

text \<open>The constructor \<open>avlTree()\<close>.\<close>

definition avlTree_init :: "'k avlTree" where
  "avlTree_init = \<lparr>root = Null, count = 0, freed = Null, news = 0, deletes = 0,
     flag_h = False, flag_a = False, flag_r = False,
     lle = 0, lre = 0, rle = 0, rre = 0, lli = 0, lri = 0, rli = 0, rri = 0\<rparr>"

subsection \<open>Node pool\<close>

text \<open>\<open>newNode(x, h)\<close>: pop a node from the freed list, or allocate one.\<close>

definition newNode :: "config \<Rightarrow> 'k \<Rightarrow> 'k avlTree \<Rightarrow> 'k avl_node \<times> 'k avlTree" where
  "newNode cfg x s =
     (case freed s of
        Node fk fb fl fr \<Rightarrow>
          if DISABLE_FREED_LIST cfg
          then (Node x 0 Null Null, s\<lparr>flag_h := True, news := news s + 1\<rparr>)
          else (Node x 0 Null Null, s\<lparr>freed := fl, flag_h := True\<rparr>)
      | Null \<Rightarrow> (Node x 0 Null Null, s\<lparr>flag_h := True, news := news s + 1\<rparr>))"

text \<open>\<open>deleteNode(q)\<close>: prepend the node to the freed list, or delete it.\<close>

fun deleteNode :: "config \<Rightarrow> 'k avl_node \<Rightarrow> 'k avlTree \<Rightarrow> 'k avlTree option" where
  "deleteNode cfg Null s = (if DISABLE_FREED_LIST cfg then Some s else None)"
| "deleteNode cfg (Node k b l r) s =
     (if DISABLE_FREED_LIST cfg then Some (s\<lparr>deletes := deletes s + 1\<rparr>)
      else Some (s\<lparr>freed := Node k b (freed s) r\<rparr>))"

text \<open>\<open>freedSize()\<close>: the loop that walks the freed list through the \<open>left\<close> fields.\<close>

fun freedSize_loop :: "('k, 'm) node \<Rightarrow> size_t \<Rightarrow> size_t" where
  "freedSize_loop Null cnt = cnt"
| "freedSize_loop (Node k b l r) cnt = freedSize_loop l (cnt + 1)"

definition freedSize :: "config \<Rightarrow> 'k avlTree \<Rightarrow> size_t" where
  "freedSize cfg s = (if DISABLE_FREED_LIST cfg then 0 else freedSize_loop (freed s) 0)"

text \<open>\<open>clear(p)\<close> deletes every node of a subtree; the result is the number of deletes.\<close>

fun clear_rec :: "('k, 'm) node \<Rightarrow> nat" where
  "clear_rec Null = 0"
| "clear_rec (Node k b l r) = clear_rec l + clear_rec r + 1"

text \<open>\<open>clearFreed()\<close>: delete every node of the freed list.\<close>

fun clearFreed_loop :: "('k, 'm) node \<Rightarrow> nat" where
  "clearFreed_loop Null = 0"
| "clearFreed_loop (Node k b l r) = clearFreed_loop l + 1"

definition clearFreed :: "config \<Rightarrow> 'k avlTree \<Rightarrow> 'k avlTree" where
  "clearFreed cfg s =
     (if DISABLE_FREED_LIST cfg then s
      else s\<lparr>freed := Null, deletes := deletes s + clearFreed_loop (freed s)\<rparr>)"

text \<open>\<open>clear()\<close>, which the destructor calls.\<close>

definition avl_clear :: "config \<Rightarrow> 'k avlTree \<Rightarrow> 'k avlTree" where
  "avl_clear cfg s =
     clearFreed cfg (s\<lparr>root := Null, count := 0, deletes := deletes s + clear_rec (root s)\<rparr>)"

text \<open>\<open>size()\<close> and \<open>empty()\<close>.\<close>

definition avl_size :: "'k avlTree \<Rightarrow> size_t" where
  "avl_size s = count s"

definition avl_empty :: "'k avlTree \<Rightarrow> bool" where
  "avl_empty s = (count s = 0)"

subsection \<open>Search\<close>

text \<open>\<open>contains(p, x)\<close>: the loop follows one branch at each step.\<close>

fun contains_loop :: "('k::linorder, 'm) node \<Rightarrow> 'k \<Rightarrow> bool" where
  "contains_loop Null x = False"
| "contains_loop (Node k b l r) x =
     (if x < k then contains_loop l x
      else if x > k then contains_loop r x
      else True)"

definition avl_contains :: "'k::linorder avlTree \<Rightarrow> 'k \<Rightarrow> bool" where
  "avl_contains s x = contains_loop (root s) x"

subsection \<open>Insertion\<close>

text \<open>
  \<open>balanceInsertLeft(p)\<close>.  The \<open>switch\<close> has the cases 1, 0 and -1 and no default.
  \<open>p1 = p->left\<close> and \<open>p2 = p1->right\<close> are dereferenced without a test.
\<close>

fun balanceInsertLeft :: "'k avl_node \<Rightarrow> 'k avlTree \<Rightarrow> ('k avl_node \<times> 'k avlTree) option" where
  "balanceInsertLeft Null s = None"
| "balanceInsertLeft (Node k b l r) s =
     (if b = 1 then Some (Node k 0 l r, s\<lparr>flag_h := False\<rparr>)
      else if b = 0 then Some (Node k (-1) l r, s)
      else if b = -1 then
        (case l of
           Null \<Rightarrow> None
         | Node k1 b1 l1 r1 \<Rightarrow>
             if b1 = -1 then
               Some (Node k1 0 l1 (Node k 0 r1 r), s\<lparr>lli := lli s + 1, flag_h := False\<rparr>)
             else
               (case r1 of
                  Null \<Rightarrow> None
                | Node k2 b2 l2 r2 \<Rightarrow>
                    Some (Node k2 0
                            (Node k1 (if b2 = 1 then -1 else 0) l1 l2)
                            (Node k (if b2 = -1 then 1 else 0) r2 r),
                          s\<lparr>lri := lri s + 1, flag_h := False\<rparr>)))
      else Some (Node k b l r, s))"

text \<open>\<open>balanceInsertRight(p)\<close>, the mirror image.\<close>

fun balanceInsertRight :: "'k avl_node \<Rightarrow> 'k avlTree \<Rightarrow> ('k avl_node \<times> 'k avlTree) option" where
  "balanceInsertRight Null s = None"
| "balanceInsertRight (Node k b l r) s =
     (if b = -1 then Some (Node k 0 l r, s\<lparr>flag_h := False\<rparr>)
      else if b = 0 then Some (Node k 1 l r, s)
      else if b = 1 then
        (case r of
           Null \<Rightarrow> None
         | Node k1 b1 l1 r1 \<Rightarrow>
             if b1 = 1 then
               Some (Node k1 0 (Node k 0 l l1) r1, s\<lparr>rri := rri s + 1, flag_h := False\<rparr>)
             else
               (case l1 of
                  Null \<Rightarrow> None
                | Node k2 b2 l2 r2 \<Rightarrow>
                    Some (Node k2 0
                            (Node k (if b2 = 1 then -1 else 0) l l2)
                            (Node k1 (if b2 = -1 then 1 else 0) r2 r1),
                          s\<lparr>rli := rli s + 1, flag_h := False\<rparr>)))
      else Some (Node k b l r, s))"

text \<open>
  \<open>Node* insert(Node* p, K const& x)\<close>, the recursive function.  It is called with a
  pointer that is not null.
\<close>

fun avl_insert_rec ::
  "config \<Rightarrow> 'k::linorder avl_node \<Rightarrow> 'k \<Rightarrow> 'k avlTree \<Rightarrow> ('k avl_node \<times> 'k avlTree) option" where
  "avl_insert_rec cfg Null x s = None"
| "avl_insert_rec cfg (Node k b l r) x s =
     (if x < k then
        do {
          (l', s1) \<leftarrow>
            (if l \<noteq> Null then avl_insert_rec cfg l x s
             else (let (n, s0) = newNode cfg x s in Some (n, s0\<lparr>flag_a := True\<rparr>)));
          if flag_h s1 then balanceInsertLeft (Node k b l' r) s1
          else Some (Node k b l' r, s1)
        }
      else if x > k then
        do {
          (r', s1) \<leftarrow>
            (if r \<noteq> Null then avl_insert_rec cfg r x s
             else (let (n, s0) = newNode cfg x s in Some (n, s0\<lparr>flag_a := True\<rparr>)));
          if flag_h s1 then balanceInsertRight (Node k b l r') s1
          else Some (Node k b l r', s1)
        }
      else Some (Node k b l r, s\<lparr>flag_h := False, flag_a := False\<rparr>))"

text \<open>\<open>bool insert(K const& x)\<close>: the result is the flag \<open>a\<close>.\<close>

definition avl_insert ::
  "config \<Rightarrow> 'k::linorder \<Rightarrow> 'k avlTree \<Rightarrow> (bool \<times> 'k avlTree) option" where
  "avl_insert cfg x s =
     (let s0 = s\<lparr>flag_h := False, flag_a := True\<rparr> in
      if root s0 \<noteq> Null then
        do {
          (p, s1) \<leftarrow> avl_insert_rec cfg (root s0) x s0;
          let s2 = s1\<lparr>root := p\<rparr>;
          let s3 = (if flag_a s2 then s2\<lparr>count := count s2 + 1\<rparr> else s2);
          Some (flag_a s3, s3)
        }
      else
        (let (n, s1) = newNode cfg x s0;
             s2 = s1\<lparr>root := n\<rparr>;
             s3 = s2\<lparr>count := count s2 + 1\<rparr>
         in Some (flag_a s3, s3)))"

subsection \<open>Erasure\<close>

text \<open>\<open>balanceEraseLeft(p)\<close>: rebalance after the left branch has become lower.\<close>

fun balanceEraseLeft :: "'k avl_node \<Rightarrow> 'k avlTree \<Rightarrow> ('k avl_node \<times> 'k avlTree) option" where
  "balanceEraseLeft Null s = None"
| "balanceEraseLeft (Node k b l r) s =
     (if b = -1 then Some (Node k 0 l r, s)
      else if b = 0 then Some (Node k 1 l r, s\<lparr>flag_h := False\<rparr>)
      else if b = 1 then
        (case r of
           Null \<Rightarrow> None
         | Node k1 b1 l1 r1 \<Rightarrow>
             if b1 \<ge> 0 then
               (if b1 = 0 then
                  Some (Node k1 (-1) (Node k 1 l l1) r1, s\<lparr>rre := rre s + 1, flag_h := False\<rparr>)
                else
                  Some (Node k1 0 (Node k 0 l l1) r1, s\<lparr>rre := rre s + 1\<rparr>))
             else
               (case l1 of
                  Null \<Rightarrow> None
                | Node k2 b2 l2 r2 \<Rightarrow>
                    Some (Node k2 0
                            (Node k (if b2 = 1 then -1 else 0) l l2)
                            (Node k1 (if b2 = -1 then 1 else 0) r2 r1),
                          s\<lparr>rle := rle s + 1\<rparr>)))
      else Some (Node k b l r, s))"

text \<open>\<open>balanceEraseRight(p)\<close>, the mirror image.\<close>

fun balanceEraseRight :: "'k avl_node \<Rightarrow> 'k avlTree \<Rightarrow> ('k avl_node \<times> 'k avlTree) option" where
  "balanceEraseRight Null s = None"
| "balanceEraseRight (Node k b l r) s =
     (if b = 1 then Some (Node k 0 l r, s)
      else if b = 0 then Some (Node k (-1) l r, s\<lparr>flag_h := False\<rparr>)
      else if b = -1 then
        (case l of
           Null \<Rightarrow> None
         | Node k1 b1 l1 r1 \<Rightarrow>
             if b1 \<le> 0 then
               (if b1 = 0 then
                  Some (Node k1 1 l1 (Node k (-1) r1 r), s\<lparr>lle := lle s + 1, flag_h := False\<rparr>)
                else
                  Some (Node k1 0 l1 (Node k 0 r1 r), s\<lparr>lle := lle s + 1\<rparr>))
             else
               (case r1 of
                  Null \<Rightarrow> None
                | Node k2 b2 l2 r2 \<Rightarrow>
                    Some (Node k2 0
                            (Node k1 (if b2 = 1 then -1 else 0) l1 l2)
                            (Node k (if b2 = -1 then 1 else 0) r2 r),
                          s\<lparr>lre := lre s + 1\<rparr>)))
      else Some (Node k b l r, s))"

text \<open>
  \<open>eraseLeft(p, q)\<close> unlinks the leftmost node of the subtree \<open>p\<close>.  In the source the
  parameter \<open>q\<close> is a reference to the pointer to the node that holds the erased key:
  the function copies the key of the leftmost node into that node and then makes \<open>q\<close>
  point to the leftmost node.  The model returns the subtree, the unlinked node (the new
  value of \<open>q\<close>) and the state; the caller, which owns the node that \<open>q\<close> pointed
  to, stores the key of the unlinked node in it.
\<close>

fun eraseLeft :: "'k avl_node \<Rightarrow> 'k avlTree \<Rightarrow> ('k avl_node \<times> 'k avl_node \<times> 'k avlTree) option" where
  "eraseLeft Null s = None"
| "eraseLeft (Node k b l r) s =
     (if l \<noteq> Null then
        do {
          (l', q, s1) \<leftarrow> eraseLeft l s;
          if flag_h s1 then
            do { (p, s2) \<leftarrow> balanceEraseLeft (Node k b l' r) s1; Some (p, q, s2) }
          else Some (Node k b l' r, q, s1)
        }
      else Some (r, Node k b l r, s\<lparr>flag_h := True\<rparr>))"

text \<open>\<open>eraseRight(p, q)\<close> unlinks the rightmost node of the subtree \<open>p\<close>.\<close>

fun eraseRight :: "'k avl_node \<Rightarrow> 'k avlTree \<Rightarrow> ('k avl_node \<times> 'k avl_node \<times> 'k avlTree) option" where
  "eraseRight Null s = None"
| "eraseRight (Node k b l r) s =
     (if r \<noteq> Null then
        do {
          (r', q, s1) \<leftarrow> eraseRight r s;
          if flag_h s1 then
            do { (p, s2) \<leftarrow> balanceEraseRight (Node k b l r') s1; Some (p, q, s2) }
          else Some (Node k b l r', q, s1)
        }
      else Some (l, Node k b l r, s\<lparr>flag_h := True\<rparr>))"

text \<open>
  The test that selects the subtree of the replacement node of a node with two children:
  \<open>p->bal <= 0\<close> with \<open>ENABLE_PREFERRED_TEST\<close>, \<open>p->bal < 0\<close> with
  \<open>INVERT_PREFERRED_TEST\<close> in addition, and no test at all (the right subtree is
  taken) without \<open>ENABLE_PREFERRED_TEST\<close>.
\<close>

definition prefer_left :: "config \<Rightarrow> int \<Rightarrow> bool" where
  "prefer_left cfg b =
     (ENABLE_PREFERRED_TEST cfg \<and> (if INVERT_PREFERRED_TEST cfg then b < 0 else b \<le> 0))"

text \<open>\<open>Node* erase(Node* p, K const& x)\<close>, the recursive function.\<close>

fun avl_erase_rec ::
  "config \<Rightarrow> 'k::linorder avl_node \<Rightarrow> 'k \<Rightarrow> 'k avlTree \<Rightarrow> ('k avl_node \<times> 'k avlTree) option" where
  "avl_erase_rec cfg Null x s = None"
| "avl_erase_rec cfg (Node k b l r) x s =
     (if x < k then
        (if l \<noteq> Null then
           do {
             (l', s1) \<leftarrow> avl_erase_rec cfg l x s;
             if flag_h s1 then balanceEraseLeft (Node k b l' r) s1
             else Some (Node k b l' r, s1)
           }
         else Some (Node k b l r, s\<lparr>flag_h := False, flag_r := False\<rparr>))
      else if x > k then
        (if r \<noteq> Null then
           do {
             (r', s1) \<leftarrow> avl_erase_rec cfg r x s;
             if flag_h s1 then balanceEraseRight (Node k b l r') s1
             else Some (Node k b l r', s1)
           }
         else Some (Node k b l r, s\<lparr>flag_h := False, flag_r := False\<rparr>))
      else
        do {
          (p, q, s1) \<leftarrow>
            (if r = Null then Some (l, Node k b l r, s\<lparr>flag_h := True\<rparr>)
             else if l = Null then Some (r, Node k b l r, s\<lparr>flag_h := True\<rparr>)
             else if prefer_left cfg b then
               do {
                 (l', q, s1) \<leftarrow> eraseRight l s;
                 if flag_h s1 then
                   do { (p, s2) \<leftarrow> balanceEraseLeft (Node (key q) b l' r) s1; Some (p, q, s2) }
                 else Some (Node (key q) b l' r, q, s1)
               }
             else
               do {
                 (r', q, s1) \<leftarrow> eraseLeft r s;
                 if flag_h s1 then
                   do { (p, s2) \<leftarrow> balanceEraseRight (Node (key q) b l r') s1; Some (p, q, s2) }
                 else Some (Node (key q) b l r', q, s1)
               });
          s2 \<leftarrow> deleteNode cfg q s1;
          Some (p, s2\<lparr>flag_r := True\<rparr>)
        })"

text \<open>\<open>bool erase(K const& x)\<close>: the result is the flag \<open>r\<close>.\<close>

definition avl_erase ::
  "config \<Rightarrow> 'k::linorder \<Rightarrow> 'k avlTree \<Rightarrow> (bool \<times> 'k avlTree) option" where
  "avl_erase cfg x s =
     (let s0 = s\<lparr>flag_h := False, flag_r := False\<rparr> in
      if root s0 \<noteq> Null then
        do {
          (p, s1) \<leftarrow> avl_erase_rec cfg (root s0) x s0;
          let s2 = s1\<lparr>root := p\<rparr>;
          let s3 = (if flag_r s2 then s2\<lparr>count := count s2 - 1\<rparr> else s2);
          Some (flag_r s3, s3)
        }
      else Some (flag_r s0, s0))"

subsection \<open>Traversal and checking\<close>

text \<open>
  \<open>getKeys(p, v, i)\<close> stores the keys in order with \<open>v[i++] = p->key\<close>;
  \<open>std::vector::operator[]\<close> does not check the index, so a write at an index that
  is not below the length of the vector is an error of the model.
\<close>

fun getKeys_rec :: "('k, 'm) node \<Rightarrow> 'k list \<Rightarrow> nat \<Rightarrow> ('k list \<times> nat) option" where
  "getKeys_rec Null v i = None"
| "getKeys_rec (Node k b l r) v i =
     do {
       (v1, i1) \<leftarrow> (if l \<noteq> Null then getKeys_rec l v i else Some (v, i));
       (v2, i2) \<leftarrow> (if i1 < length v1 then Some (v1[i1 := k], i1 + 1) else None);
       if r \<noteq> Null then getKeys_rec r v2 i2 else Some (v2, i2)
     }"

text \<open>\<open>getKeys(v)\<close>: nothing is written when the tree is empty.\<close>

definition avl_getKeys :: "'k avlTree \<Rightarrow> 'k list \<Rightarrow> 'k list option" where
  "avl_getKeys s v =
     (if root s \<noteq> Null then map_option fst (getKeys_rec (root s) v 0) else Some v)"

text \<open>
  \<open>checkTree(node)\<close> throws \<open>std::runtime_error\<close> when a child is out of order or
  a balance field is outside of [-1, 1]; the result \<open>False\<close> stands for the exception.
\<close>

fun checkTree_rec :: "'k::linorder avl_node \<Rightarrow> bool" where
  "checkTree_rec Null = False"
| "checkTree_rec (Node k b l r) =
     (if l \<noteq> Null \<and> key l \<ge> k then False
      else if r \<noteq> Null \<and> key r \<le> k then False
      else if b > 1 \<or> b < -1 then False
      else (if l \<noteq> Null then checkTree_rec l else True) \<and>
           (if r \<noteq> Null then checkTree_rec r else True))"

definition avl_checkTree :: "'k::linorder avlTree \<Rightarrow> bool" where
  "avl_checkTree s = (if root s = Null then True else checkTree_rec (root s))"

section \<open>Specification of the AVL tree\<close>

fun height :: "('k, 'm) node \<Rightarrow> nat" where
  "height Null = 0"
| "height (Node k b l r) = max (height l) (height r) + 1"

fun inorder :: "('k, 'm) node \<Rightarrow> 'k list" where
  "inorder Null = []"
| "inorder (Node k b l r) = inorder l @ k # inorder r"

fun num_nodes :: "('k, 'm) node \<Rightarrow> nat" where
  "num_nodes Null = 0"
| "num_nodes (Node k b l r) = num_nodes l + num_nodes r + 1"

definition keys :: "('k, 'm) node \<Rightarrow> 'k set" where
  "keys t = set (inorder t)"

fun bst :: "('k::linorder, 'm) node \<Rightarrow> bool" where
  "bst Null = True"
| "bst (Node k b l r) = ((\<forall>y \<in> keys l. y < k) \<and> (\<forall>y \<in> keys r. k < y) \<and> bst l \<and> bst r)"

fun avl_inv :: "'k avl_node \<Rightarrow> bool" where
  "avl_inv Null = True"
| "avl_inv (Node k b l r) =
     (b = int (height r) - int (height l) \<and> - 1 \<le> b \<and> b \<le> 1 \<and> avl_inv l \<and> avl_inv r)"

text \<open>The counters of the rotations that insertion performs.\<close>

definition ins_rots :: "'k avlTree \<Rightarrow> size_t \<times> size_t \<times> size_t \<times> size_t" where
  "ins_rots s = (lli s, lri s, rli s, rri s)"

text \<open>What a call of the recursive insert function establishes.\<close>

definition insert_post ::
  "'k::linorder avl_node \<Rightarrow> 'k \<Rightarrow> 'k avlTree \<Rightarrow> 'k avl_node \<Rightarrow> 'k avlTree \<Rightarrow> bool" where
  "insert_post t x s t' s' \<longleftrightarrow>
     avl_inv t' \<and> t' \<noteq> Null \<and> keys t' = insert x (keys t) \<and> bst t'
     \<and> flag_a s' = (x \<notin> keys t)
     \<and> (x \<in> keys t \<longrightarrow> t' = t \<and> \<not> flag_h s' \<and> ins_rots s' = ins_rots s)
     \<and> (flag_h s' \<longrightarrow> height t' = height t + 1 \<and> (bal t' = 0 \<longrightarrow> t = Null))
     \<and> (\<not> flag_h s' \<longrightarrow> height t' = height t)
     \<and> (ins_rots s' \<noteq> ins_rots s \<longrightarrow> \<not> flag_h s')
     \<and> root s' = root s \<and> count s' = count s \<and> deletes s' = deletes s"

text \<open>What the unlinking of the leftmost or rightmost node establishes.\<close>

definition unlink_post ::
  "'k avl_node \<Rightarrow> 'k avlTree \<Rightarrow> 'k avl_node \<Rightarrow> 'k avlTree \<Rightarrow> bool" where
  "unlink_post t s t' s' \<longleftrightarrow>
     avl_inv t'
     \<and> (flag_h s' \<longrightarrow> height t = height t' + 1)
     \<and> (\<not> flag_h s' \<longrightarrow> height t' = height t)
     \<and> freed s' = freed s \<and> news s' = news s \<and> deletes s' = deletes s
     \<and> root s' = root s \<and> count s' = count s \<and> flag_a s' = flag_a s \<and> flag_r s' = flag_r s"

text \<open>What a call of the recursive erase function establishes.\<close>

definition pool_push :: "config \<Rightarrow> 'k avlTree \<Rightarrow> 'k avlTree \<Rightarrow> bool" where
  "pool_push cfg s s' \<longleftrightarrow>
     (if DISABLE_FREED_LIST cfg then freed s' = freed s \<and> deletes s' = deletes s + 1
      else deletes s' = deletes s \<and> (\<exists>kq bq rq. freed s' = Node kq bq (freed s) rq))"

definition erase_post ::
  "config \<Rightarrow> 'k::linorder avl_node \<Rightarrow> 'k \<Rightarrow> 'k avlTree \<Rightarrow> 'k avl_node \<Rightarrow> 'k avlTree \<Rightarrow> bool" where
  "erase_post cfg t x s t' s' \<longleftrightarrow>
     avl_inv t' \<and> bst t' \<and> keys t' = keys t - {x}
     \<and> flag_r s' = (x \<in> keys t)
     \<and> (x \<notin> keys t \<longrightarrow> t' = t \<and> \<not> flag_h s' \<and> freed s' = freed s \<and> deletes s' = deletes s)
     \<and> (x \<in> keys t \<longrightarrow> num_nodes t = num_nodes t' + 1 \<and> pool_push cfg s s')
     \<and> (flag_h s' \<longrightarrow> height t = height t' + 1)
     \<and> (\<not> flag_h s' \<longrightarrow> height t' = height t)
     \<and> root s' = root s \<and> count s' = count s \<and> news s' = news s \<and> flag_a s' = flag_a s"

definition unlinked_key :: "config \<Rightarrow> int \<Rightarrow> 'k avl_node \<Rightarrow> 'k avl_node \<Rightarrow> 'k" where
  "unlinked_key cfg b l r = (if prefer_left cfg b then last (inorder l) else hd (inorder r))"

definition avl_ok :: "'k::linorder avlTree \<Rightarrow> bool" where
  "avl_ok s \<longleftrightarrow> avl_inv (root s) \<and> bst (root s) \<and> count s = of_nat (num_nodes (root s))"

fun avl_insert_all :: "config \<Rightarrow> 'k::linorder list \<Rightarrow> 'k avlTree \<Rightarrow> 'k avlTree option" where
  "avl_insert_all cfg [] s = Some s"
| "avl_insert_all cfg (x # xs) s = do { (b, s') \<leftarrow> avl_insert cfg x s; avl_insert_all cfg xs s' }"

fun avl_erase_all :: "config \<Rightarrow> 'k::linorder list \<Rightarrow> 'k avlTree \<Rightarrow> 'k avlTree option" where
  "avl_erase_all cfg [] s = Some s"
| "avl_erase_all cfg (x # xs) s = do { (b, s') \<leftarrow> avl_erase cfg x s; avl_erase_all cfg xs s' }"

fun leftmost :: "('k, 'm) node \<Rightarrow> 'k" where
  "leftmost (Node k b l r) = (if l = Null then k else leftmost l)"

fun rightmost :: "('k, 'm) node \<Rightarrow> 'k" where
  "rightmost (Node k b l r) = (if r = Null then k else rightmost r)"

section \<open>burbTree.h\<close>

subsection \<open>Data model\<close>

text \<open>
  The colours \<open>RED\<close>, \<open>BLACK\<close> and \<open>DOUBLE_BLACK\<close> of \<open>color_t\<close>, and
  \<open>struct Node { K key; color_t color; Node *left, *right, *parent; }\<close> of the default
  build (iteration instead of \<open>RECURSION\<close>, \<open>nullptr\<close> instead of a sentinel node, no
  \<open>ENABLE_PREFERRED_TEST\<close> and hence no \<open>taille\<close> field).
\<close>

datatype color = RED | BLACK | DOUBLE_BLACK

type_synonym 'k rb_node = "('k, color) node"

text \<open>
  The \<open>parent\<close> pointers are modelled by a zipper.  A pointer to a node of the tree is
  the subtree at the node together with the path from the node to the root: the list of
  the frames of its ancestors, the parent first.  The frame \<open>LeftOf k c r\<close> says that the
  pointer is the left child of a node with key \<open>k\<close>, colour \<open>c\<close> and right child \<open>r\<close>;
  \<open>RightOf k c l\<close> says that it is the right child of a node with key \<open>k\<close>, colour
  \<open>c\<close> and left child \<open>l\<close>.  The pointer is the root if and only if the path is empty,
  and \<open>plug\<close> gives the tree that a subtree and its path stand for.  A pointer to a
  descendant of a node is given by the directions that lead from the node to it.
\<close>

datatype 'k frame = LeftOf 'k color "'k rb_node" | RightOf 'k color "'k rb_node"

type_synonym 'k path = "'k frame list"

datatype dir = Lft | Rgt

fun plug :: "'k path \<Rightarrow> 'k rb_node \<Rightarrow> 'k rb_node" where
  "plug [] t = t"
| "plug (LeftOf k c r # path) t = plug path (Node k c t r)"
| "plug (RightOf k c l # path) t = plug path (Node k c l t)"

fun frame_color :: "'k frame \<Rightarrow> color" where
  "frame_color (LeftOf k c r) = c"
| "frame_color (RightOf k c l) = c"

text \<open>The node at the end of a list of directions, and the replacement of the subtree there.\<close>

fun get_at :: "dir list \<Rightarrow> ('k, 'm) node \<Rightarrow> ('k, 'm) node option" where
  "get_at [] t = Some t"
| "get_at (d # ds) Null = None"
| "get_at (d # ds) (Node k c l r) = (if d = Lft then get_at ds l else get_at ds r)"

fun replace_at :: "dir list \<Rightarrow> ('k, 'm) node \<Rightarrow> ('k, 'm) node \<Rightarrow> ('k, 'm) node option" where
  "replace_at [] t u = Some u"
| "replace_at (d # ds) Null u = None"
| "replace_at (d # ds) (Node k c l r) u =
     (if d = Lft then map_option (\<lambda>l'. Node k c l' r) (replace_at ds l u)
      else map_option (\<lambda>r'. Node k c l r') (replace_at ds r u))"

text \<open>The members of \<open>class burbTree\<close> and its constructor.\<close>

record 'k burbTree = "('k, color) tree" +
  rotateL :: size_t
  rotateR :: size_t

definition burbTree_init :: "'k burbTree" where
  "burbTree_init = \<lparr>root = Null, count = 0, freed = Null, news = 0, deletes = 0,
     rotateL = 0, rotateR = 0\<rparr>"

text \<open>\<open>getColor(node)\<close> and \<open>setColor(node, color)\<close> test the pointer.\<close>

fun getColor :: "'k rb_node \<Rightarrow> color" where
  "getColor Null = BLACK"
| "getColor (Node k c l r) = c"

fun setColor :: "'k rb_node \<Rightarrow> color \<Rightarrow> 'k rb_node" where
  "setColor Null c = Null"
| "setColor (Node k c' l r) c = Node k c l r"

text \<open>The assignment \<open>node->color = c\<close> does not test the pointer.\<close>

fun assign_color :: "'k rb_node \<Rightarrow> color \<Rightarrow> 'k rb_node option" where
  "assign_color Null c = None"
| "assign_color (Node k c' l r) c = Some (Node k c l r)"

subsection \<open>Node pool\<close>

text \<open>\<open>newNode(key)\<close> and \<open>deleteNode(q)\<close>.\<close>

definition burb_newNode :: "'k \<Rightarrow> 'k burbTree \<Rightarrow> 'k rb_node \<times> 'k burbTree" where
  "burb_newNode x s =
     (case freed s of
        Node fk fc fl fr \<Rightarrow> (Node x RED Null Null, s\<lparr>freed := fl\<rparr>)
      | Null \<Rightarrow> (Node x RED Null Null, s\<lparr>news := news s + 1\<rparr>))"

fun burb_deleteNode :: "'k rb_node \<Rightarrow> 'k burbTree \<Rightarrow> 'k burbTree option" where
  "burb_deleteNode Null s = None"
| "burb_deleteNode (Node k c l r) s = Some (s\<lparr>freed := Node k c (freed s) r\<rparr>)"

definition burb_freedSize :: "'k burbTree \<Rightarrow> size_t" where
  "burb_freedSize s = freedSize_loop (freed s) 0"

definition burb_size :: "'k burbTree \<Rightarrow> size_t" where
  "burb_size s = count s"

definition burb_empty :: "'k burbTree \<Rightarrow> bool" where
  "burb_empty s = (count s = 0)"

subsection \<open>Rotations\<close>

text \<open>
  \<open>rotateLeft(node)\<close> makes the right child of the node the root of the subtree; the
  assignment to the child pointer of the parent, or to \<open>root\<close>, is the replacement of the
  subtree in the zipper.  The colours do not change.  The right child is dereferenced
  without a test.
\<close>

fun burb_rotateLeft :: "'k rb_node \<Rightarrow> 'k burbTree \<Rightarrow> ('k rb_node \<times> 'k burbTree) option" where
  "burb_rotateLeft (Node k c l (Node rk rc rl rr)) s =
     Some (Node rk rc (Node k c l rl) rr, s\<lparr>rotateL := rotateL s + 1\<rparr>)"
| "burb_rotateLeft (Node k c l Null) s = None"
| "burb_rotateLeft Null s = None"

fun burb_rotateRight :: "'k rb_node \<Rightarrow> 'k burbTree \<Rightarrow> ('k rb_node \<times> 'k burbTree) option" where
  "burb_rotateRight (Node k c (Node lk lc ll lr) r) s =
     Some (Node lk lc ll (Node k c lr r), s\<lparr>rotateR := rotateR s + 1\<rparr>)"
| "burb_rotateRight (Node k c Null r) s = None"
| "burb_rotateRight Null s = None"

subsection \<open>Search\<close>

definition burb_contains :: "'k::linorder burbTree \<Rightarrow> 'k \<Rightarrow> bool" where
  "burb_contains s x = (if root s = Null then False else contains_loop (root s) x)"

subsection \<open>Insertion\<close>

text \<open>
  The loop of \<open>bool insert(Node* const node)\<close> that searches for the point of insertion.
  The result \<open>None\<close> stands for \<open>return false\<close> (the key is in the tree); otherwise the
  result is the path of the null pointer at which the search ends, whose first frame is
  \<open>parent\<close>.
\<close>

fun burb_insert_loop :: "'k::linorder rb_node \<Rightarrow> 'k path \<Rightarrow> 'k \<Rightarrow> 'k path option" where
  "burb_insert_loop Null path x = Some path"
| "burb_insert_loop (Node k c l r) path x =
     (if x < k then burb_insert_loop l (LeftOf k c r # path) x
      else if x > k then burb_insert_loop r (RightOf k c l # path) x
      else None)"

text \<open>
  \<open>std::swap(parent->color, grandparent->color)\<close> after the rotation at the
  grandparent: the parent is the root of the subtree, the grandparent its right child
  (\<open>swap_color_right\<close>) or its left child (\<open>swap_color_left\<close>).
\<close>

fun swap_color_right :: "'k rb_node \<Rightarrow> 'k rb_node option" where
  "swap_color_right (Node pk pc pl (Node gk gc gl gr)) = Some (Node pk gc pl (Node gk pc gl gr))"
| "swap_color_right (Node pk pc pl Null) = None"
| "swap_color_right Null = None"

fun swap_color_left :: "'k rb_node \<Rightarrow> 'k rb_node option" where
  "swap_color_left (Node pk pc (Node gk gc gl gr) pr) = Some (Node pk gc (Node gk pc gl gr) pr)"
| "swap_color_left (Node pk pc Null pr) = None"
| "swap_color_left Null = None"

text \<open>
  The \<open>while\<close> loop of \<open>fixInsertion(node)\<close>.  The arguments are the path and the
  subtree of \<open>ptr\<close>; the result is the tree after the loop.  \<open>parent\<close> is the first
  frame of the path and \<open>grandparent\<close> the second one; the grandparent is dereferenced
  without a test.
\<close>

fun fixInsertion_loop ::
  "'k path \<Rightarrow> 'k rb_node \<Rightarrow> 'k burbTree \<Rightarrow> ('k rb_node \<times> 'k burbTree) option" where
  "fixInsertion_loop path Null s = None"
| "fixInsertion_loop [] (Node k c l r) s = Some (Node k c l r, s)"
| "fixInsertion_loop [f] (Node k c l r) s =
     (if c = RED \<and> frame_color f = RED then None
      else Some (plug [f] (Node k c l r), s))"
| "fixInsertion_loop (f1 # f2 # rest) (Node k c l r) s =
     (if c = RED \<and> frame_color f1 = RED then
        (case f2 of
           LeftOf gk gc uncle \<Rightarrow>
             if getColor uncle = RED then
               fixInsertion_loop rest
                 (Node gk RED
                    (case f1 of LeftOf pk pc pr \<Rightarrow> Node pk BLACK (Node k c l r) pr
                              | RightOf pk pc pl \<Rightarrow> Node pk BLACK pl (Node k c l r))
                    (setColor uncle BLACK)) s
             else
               do {
                 (parent, s1) \<leftarrow>
                   (case f1 of
                      RightOf pk pc pl \<Rightarrow> burb_rotateLeft (Node pk pc pl (Node k c l r)) s
                    | LeftOf pk pc pr \<Rightarrow> Some (Node pk pc (Node k c l r) pr, s));
                 (g, s2) \<leftarrow> burb_rotateRight (Node gk gc parent uncle) s1;
                 g' \<leftarrow> swap_color_right g;
                 Some (plug rest g', s2)
               }
         | RightOf gk gc uncle \<Rightarrow>
             if getColor uncle = RED then
               fixInsertion_loop rest
                 (Node gk RED
                    (setColor uncle BLACK)
                    (case f1 of LeftOf pk pc pr \<Rightarrow> Node pk BLACK (Node k c l r) pr
                              | RightOf pk pc pl \<Rightarrow> Node pk BLACK pl (Node k c l r))) s
             else
               do {
                 (parent, s1) \<leftarrow>
                   (case f1 of
                      LeftOf pk pc pr \<Rightarrow> burb_rotateRight (Node pk pc (Node k c l r) pr) s
                    | RightOf pk pc pl \<Rightarrow> Some (Node pk pc pl (Node k c l r), s));
                 (g, s2) \<leftarrow> burb_rotateLeft (Node gk gc uncle parent) s1;
                 g' \<leftarrow> swap_color_left g;
                 Some (plug rest g', s2)
               })
      else Some (plug (f1 # f2 # rest) (Node k c l r), s))"

text \<open>\<open>fixInsertion(node)\<close>: the loop, then \<open>root->color = BLACK\<close>.\<close>

definition fixInsertion ::
  "'k path \<Rightarrow> 'k rb_node \<Rightarrow> 'k burbTree \<Rightarrow> ('k rb_node \<times> 'k burbTree) option" where
  "fixInsertion path node s =
     do {
       (t, s1) \<leftarrow> fixInsertion_loop path node s;
       t' \<leftarrow> assign_color t BLACK;
       Some (t', s1)
     }"

text \<open>
  \<open>bool insert(K const& key)\<close>.  The new node is linked at the null pointer that the
  search has found, as the left or as the right child of \<open>parent\<close>, which is
  dereferenced without a test.
\<close>

definition burb_insert ::
  "'k::linorder \<Rightarrow> 'k burbTree \<Rightarrow> (bool \<times> 'k burbTree) option" where
  "burb_insert x s =
     (let (node, s1) = burb_newNode x s in
      if root s1 = Null then
        do {
          node' \<leftarrow> assign_color node BLACK;
          Some (True, s1\<lparr>root := node', count := count s1 + 1\<rparr>)
        }
      else
        (case burb_insert_loop (root s1) [] x of
           None \<Rightarrow> do { s2 \<leftarrow> burb_deleteNode node s1; Some (False, s2) }
         | Some path \<Rightarrow>
             if path = [] then None
             else
               do {
                 (t, s2) \<leftarrow> fixInsertion path node s1;
                 Some (True, s2\<lparr>root := t, count := count s2 + 1\<rparr>)
               }))"

subsection \<open>Erasure\<close>

text \<open>
  \<open>eraseMinValue(node)\<close> follows the left pointers; the result is the leftmost node and
  its path inside the subtree.
\<close>

fun eraseMinValue :: "'k rb_node \<Rightarrow> 'k path \<Rightarrow> ('k path \<times> 'k rb_node) option" where
  "eraseMinValue Null path = None"
| "eraseMinValue (Node k c l r) path =
     (if l \<noteq> Null then eraseMinValue l (LeftOf k c r # path)
      else Some (path, Node k c l r))"

text \<open>
  \<open>Node* erase(Node* const node, K const& key)\<close>: the search for the node to unlink.
  The result \<open>None\<close> stands for \<open>nullptr\<close> (the key is not in the tree).  A node with
  two children receives the key of the leftmost node of its right subtree, and that
  leftmost node is the result.
\<close>

fun burb_erase_loop ::
  "'k::linorder rb_node \<Rightarrow> 'k path \<Rightarrow> 'k \<Rightarrow> ('k path \<times> 'k rb_node) option option" where
  "burb_erase_loop Null path x = Some None"
| "burb_erase_loop (Node k c l r) path x =
     (if x < k then burb_erase_loop l (LeftOf k c r # path) x
      else if x > k then burb_erase_loop r (RightOf k c l # path) x
      else if l = Null \<or> r = Null then Some (Some (path, Node k c l r))
      else
        do {
          (inner, successor) \<leftarrow> eraseMinValue r [];
          Some (Some (inner @ RightOf (key successor) c l # path, successor))
        })"

text \<open>
  Rule 6 of \<open>fixErasure\<close> for a DOUBLE_BLACK left child: the sibling takes the colour of
  the parent, the parent and the far child of the sibling become BLACK, the parent is
  rotated to the left and the DOUBLE_BLACK node becomes BLACK.  After the rotation the
  parent is the left child of the root of the subtree and \<open>ptr\<close> the left child of the
  parent.  The arguments are the key and the colour of the parent, \<open>ptr\<close> and the sibling.
\<close>

fun set_color_at :: "dir list \<Rightarrow> color \<Rightarrow> 'k rb_node \<Rightarrow> 'k rb_node option" where
  "set_color_at ds c t = do { n \<leftarrow> get_at ds t; n' \<leftarrow> assign_color n c; replace_at ds t n' }"

fun rule6_left ::
  "'k \<Rightarrow> color \<Rightarrow> 'k rb_node \<Rightarrow> 'k rb_node \<Rightarrow> 'k burbTree \<Rightarrow> ('k rb_node \<times> 'k burbTree) option" where
  "rule6_left pk pc ptr Null s = None"
| "rule6_left pk pc ptr (Node sk sc sl sr) s =
     do {
       sr' \<leftarrow> assign_color sr BLACK;
       (t, s1) \<leftarrow> burb_rotateLeft (Node pk BLACK ptr (Node sk pc sl sr')) s;
       t' \<leftarrow> set_color_at [Lft, Lft] BLACK t;
       Some (t', s1)
     }"

fun rule6_right ::
  "'k \<Rightarrow> color \<Rightarrow> 'k rb_node \<Rightarrow> 'k rb_node \<Rightarrow> 'k burbTree \<Rightarrow> ('k rb_node \<times> 'k burbTree) option" where
  "rule6_right pk pc ptr Null s = None"
| "rule6_right pk pc ptr (Node sk sc sl sr) s =
     do {
       sl' \<leftarrow> assign_color sl BLACK;
       (t, s1) \<leftarrow> burb_rotateRight (Node pk BLACK (Node sk pc sl' sr) ptr) s;
       t' \<leftarrow> set_color_at [Rgt, Rgt] BLACK t;
       Some (t', s1)
     }"

text \<open>
  The weight of a path, which decreases with every iteration of the loop of
  \<open>fixErasure\<close>.
\<close>

fun frame_weight :: "'k frame \<Rightarrow> nat" where
  "frame_weight (LeftOf k c r) = 1 + 2 * num_nodes r"
| "frame_weight (RightOf k c l) = 1 + 2 * num_nodes l"

definition path_weight :: "'k path \<Rightarrow> nat" where
  "path_weight path = sum_list (map frame_weight path)"

text \<open>
  One iteration of the \<open>while\<close> loop of \<open>fixErasure\<close>, for a pointer \<open>ptr\<close> that is
  not the root and is DOUBLE_BLACK.  The arguments are the frame of the parent, the
  subtree of \<open>ptr\<close> and the directions from \<open>ptr\<close> to \<open>node\<close>.  The result
  \<open>Continue\<close> holds the frames that replace the frame of the parent, the subtree of
  \<open>ptr\<close> and the directions to \<open>node\<close> for the next test of the loop condition;
  \<open>Break\<close> holds the subtree that replaces the subtree of the parent, and the directions
  from its root to \<open>node\<close>.
\<close>

datatype 'k step = Continue "'k path" "'k rb_node" "dir list" | Break "'k rb_node" "dir list"

fun fixErasure_step ::
  "'k frame \<Rightarrow> 'k rb_node \<Rightarrow> dir list \<Rightarrow> 'k burbTree \<Rightarrow> ('k step \<times> 'k burbTree) option" where
  "fixErasure_step f Null rel s = None"
| "fixErasure_step (LeftOf pk pc sibling) (Node k c l r) rel s =
     (if getColor sibling = RED then
        do {
          sibling' \<leftarrow> assign_color sibling BLACK;
          (t, s1) \<leftarrow> burb_rotateLeft (Node pk RED (Node k c l r) sibling') s;
          (case t of
             Node sk sc (Node pk' pc' ptr sl) sr \<Rightarrow>
               Some (Continue [LeftOf pk' pc' sl, LeftOf sk sc sr] ptr rel, s1)
           | _ \<Rightarrow> None)
        }
      else
        (case sibling of
           Null \<Rightarrow> None
         | Node sk sc sl sr \<Rightarrow>
             if getColor sl = BLACK \<and> getColor sr = BLACK then
               Some (Continue []
                       (Node pk (if pc = RED then BLACK else DOUBLE_BLACK)
                          (Node k BLACK l r) (Node sk RED sl sr))
                       (Lft # rel), s)
             else if getColor sr = BLACK then
               do {
                 sl' \<leftarrow> assign_color sl BLACK;
                 (sibling', s1) \<leftarrow> burb_rotateRight (Node sk RED sl' sr) s;
                 (t, s2) \<leftarrow> rule6_left pk pc (Node k c l r) sibling' s1;
                 Some (Break t (Lft # Lft # rel), s2)
               }
             else
               do {
                 (t, s1) \<leftarrow> rule6_left pk pc (Node k c l r) (Node sk sc sl sr) s;
                 Some (Break t (Lft # Lft # rel), s1)
               }))"
| "fixErasure_step (RightOf pk pc sibling) (Node k c l r) rel s =
     (if getColor sibling = RED then
        do {
          sibling' \<leftarrow> assign_color sibling BLACK;
          (t, s1) \<leftarrow> burb_rotateRight (Node pk RED sibling' (Node k c l r)) s;
          (case t of
             Node sk sc sl (Node pk' pc' sr ptr) \<Rightarrow>
               Some (Continue [RightOf pk' pc' sr, RightOf sk sc sl] ptr rel, s1)
           | _ \<Rightarrow> None)
        }
      else
        (case sibling of
           Null \<Rightarrow> None
         | Node sk sc sl sr \<Rightarrow>
             if getColor sl = BLACK \<and> getColor sr = BLACK then
               Some (Continue []
                       (Node pk (if pc = RED then BLACK else DOUBLE_BLACK)
                          (Node sk RED sl sr) (Node k BLACK l r))
                       (Rgt # rel), s)
             else if getColor sl = BLACK then
               do {
                 sr' \<leftarrow> assign_color sr BLACK;
                 (sibling', s1) \<leftarrow> burb_rotateLeft (Node sk RED sl sr') s;
                 (t, s2) \<leftarrow> rule6_right pk pc (Node k c l r) sibling' s1;
                 Some (Break t (Rgt # Rgt # rel), s2)
               }
             else
               do {
                 (t, s1) \<leftarrow> rule6_right pk pc (Node k c l r) (Node sk sc sl sr) s;
                 Some (Break t (Rgt # Rgt # rel), s1)
               }))"

text \<open>
  The \<open>while\<close> loop of \<open>fixErasure\<close>: \<open>ptr\<close> is not the root and is DOUBLE_BLACK.
  The result is the path and the subtree of a node after the loop and the directions
  from that node to \<open>node\<close>.
\<close>

function fixErasure_loop ::
  "'k path \<Rightarrow> 'k rb_node \<Rightarrow> dir list \<Rightarrow> 'k burbTree
     \<Rightarrow> ('k path \<times> 'k rb_node \<times> dir list \<times> 'k burbTree) option" where
  "fixErasure_loop path Null rel s = (if path = [] then Some (path, Null, rel, s) else None)"
| "fixErasure_loop [] (Node k c l r) rel s = Some ([], Node k c l r, rel, s)"
| "fixErasure_loop (f # rest) (Node k c l r) rel s =
     (if c = DOUBLE_BLACK then
        (case fixErasure_step f (Node k c l r) rel s of
           None \<Rightarrow> None
         | Some (Continue frames ptr rel', s1) \<Rightarrow> fixErasure_loop (frames @ rest) ptr rel' s1
         | Some (Break t rel', s1) \<Rightarrow> Some (rest, t, rel', s1))
      else Some (f # rest, Node k c l r, rel, s))"
  by pat_completeness auto

text \<open>
  Every iteration of the loop that continues replaces the frame of the parent by frames of
  a smaller weight, which is the termination of the loop.
\<close>

lemma assign_color_Some_iff:
  "assign_color t c = Some t' \<longleftrightarrow> (\<exists>k c' l r. t = Node k c' l r \<and> t' = Node k c l r)"
  by (cases t) auto

lemma fixErasure_step_weight:
  "fixErasure_step f p rel s = Some (Continue frames ptr rel', s1)
     \<Longrightarrow> path_weight frames < frame_weight f"
  by (cases "(f, p, rel, s)" rule: fixErasure_step.cases)
     (auto simp: path_weight_def assign_color_Some_iff
           split: if_splits Option.bind_splits node.splits color.splits)

termination fixErasure_loop
proof (relation "measure (\<lambda>(path, ptr, rel, s). path_weight path)", goal_cases)
  case 1
  then show ?case by simp
next
  case (2 f rest k c l r rel s x2 x1 x2a x11 x12 x13)
  then show ?case using fixErasure_step_weight[of f "Node k c l r" rel s x11 x12 x13 x2a]
    by (simp add: path_weight_def)
qed

text \<open>
  \<open>fixErasure(node)\<close>.  The arguments are the path and the subtree of \<open>node\<close>; the
  result is the tree after the call.
\<close>

definition fixErasure ::
  "'k path \<Rightarrow> 'k rb_node \<Rightarrow> 'k burbTree \<Rightarrow> ('k rb_node \<times> 'k burbTree) option" where
  "fixErasure path node s =
     (case node of
        Null \<Rightarrow> Some (plug path Null, s)
      | Node k c l r \<Rightarrow>
          if path = [] then
            (if l = Null \<and> r = Null then
               do { s1 \<leftarrow> burb_deleteNode node s; Some (Null, s1) }
             else if l = Null then
               do { t \<leftarrow> assign_color r BLACK; s1 \<leftarrow> burb_deleteNode node s; Some (t, s1) }
             else
               do { t \<leftarrow> assign_color l BLACK; s1 \<leftarrow> burb_deleteNode node s; Some (t, s1) })
          else if c = RED \<or> getColor l = RED \<or> getColor r = RED then
            (let child = (if l \<noteq> Null then l else r) in
             do {
               s1 \<leftarrow> burb_deleteNode node s;
               Some (plug path (setColor child BLACK), s1)
             })
          else
            do {
              (path', ptr, rel, s1) \<leftarrow> fixErasure_loop path (Node k DOUBLE_BLACK l r) [] s;
              node' \<leftarrow> get_at rel ptr;
              t \<leftarrow> (if rel = [] \<and> path' = [] then None
                     else map_option (plug path') (replace_at rel ptr Null));
              s2 \<leftarrow> burb_deleteNode node' s1;
              t' \<leftarrow> assign_color t BLACK;
              Some (t', s2)
            })"

text \<open>\<open>bool erase(K const& key)\<close>.\<close>

definition burb_erase ::
  "'k::linorder \<Rightarrow> 'k burbTree \<Rightarrow> (bool \<times> 'k burbTree) option" where
  "burb_erase x s =
     do {
       found \<leftarrow> burb_erase_loop (root s) [] x;
       (case found of
          None \<Rightarrow> Some (False, s)
        | Some (path, node) \<Rightarrow>
            do {
              (t, s1) \<leftarrow> fixErasure path node (s\<lparr>count := count s - 1\<rparr>);
              Some (True, s1\<lparr>root := t\<rparr>)
            })
     }"

text \<open>\<open>getKeys(v)\<close>, as in avlTree.h.\<close>

definition burb_getKeys :: "'k burbTree \<Rightarrow> 'k list \<Rightarrow> 'k list option" where
  "burb_getKeys s v =
     (if root s \<noteq> Null then map_option fst (getKeys_rec (root s) v 0) else Some v)"

section \<open>llrbTree.h\<close>

subsection \<open>Data model\<close>

text \<open>
  \<open>struct Node { K key; color_t color; Node *left, *right; }\<close> with
  \<open>typedef bool color_t\<close>, \<open>RED = true\<close> and \<open>BLACK = false\<close>.  The field
  \<open>taille\<close> of the build with \<open>ENABLE_PREFERRED_TEST\<close> holds the number of nodes of
  the subtree; it is not a field of the model, and \<open>getSize\<close> counts the nodes.
\<close>

type_synonym 'k llrb_node = "('k, bool) node"

definition llrb_RED :: bool where
  "llrb_RED = True"

definition llrb_BLACK :: bool where
  "llrb_BLACK = False"

text \<open>
  \<open>#define FORCE_SUCCESSOR\<close> stands in the body of \<open>erase(p, x)\<close>, outside every
  conditional: the macro is defined in every build.
\<close>

definition FORCE_SUCCESSOR :: bool where
  "FORCE_SUCCESSOR = True"

text \<open>
  The other members of \<open>class llrbTree\<close>: \<open>a\<close> and \<open>r\<close> (a key was added, a key
  was removed) and the rotation counters.
\<close>

record 'k llrbTree = "('k, bool) tree" +
  llrb_a :: bool
  llrb_r :: bool
  llrb_rotateL :: size_t
  llrb_rotateR :: size_t

definition llrbTree_init :: "'k llrbTree" where
  "llrbTree_init = \<lparr>root = Null, count = 0, freed = Null, news = 0, deletes = 0,
     llrb_a = False, llrb_r = False, llrb_rotateL = 0, llrb_rotateR = 0\<rparr>"

subsection \<open>Node pool\<close>

text \<open>
  \<open>newNode(key, c)\<close>: a node taken from the freed list is made RED, whatever \<open>c\<close>
  is; a node from \<open>new Node(key, c)\<close> has the colour \<open>c\<close>.
\<close>

definition llrb_newNode ::
  "config \<Rightarrow> 'k \<Rightarrow> bool \<Rightarrow> 'k llrbTree \<Rightarrow> 'k llrb_node \<times> 'k llrbTree" where
  "llrb_newNode cfg x c s =
     (case freed s of
        Node fk fc fl fr \<Rightarrow>
          if DISABLE_FREED_LIST cfg
          then (Node x c Null Null, s\<lparr>news := news s + 1\<rparr>)
          else (Node x llrb_RED Null Null, s\<lparr>freed := fl\<rparr>)
      | Null \<Rightarrow> (Node x c Null Null, s\<lparr>news := news s + 1\<rparr>))"

fun llrb_deleteNode :: "config \<Rightarrow> 'k llrb_node \<Rightarrow> 'k llrbTree \<Rightarrow> 'k llrbTree option" where
  "llrb_deleteNode cfg Null s = (if DISABLE_FREED_LIST cfg then Some s else None)"
| "llrb_deleteNode cfg (Node k c l r) s =
     (if DISABLE_FREED_LIST cfg then Some (s\<lparr>deletes := deletes s + 1\<rparr>)
      else Some (s\<lparr>freed := Node k c (freed s) r\<rparr>))"

subsection \<open>Colours and rotations\<close>

fun isRed :: "'k llrb_node \<Rightarrow> bool" where
  "isRed Null = False"
| "isRed (Node k c l r) = (c = llrb_RED)"

text \<open>The assignments \<open>p->left = q\<close>, \<open>p->right = q\<close> and \<open>p->color = c\<close>.\<close>

fun set_left :: "('k, 'm) node \<Rightarrow> ('k, 'm) node \<Rightarrow> ('k, 'm) node option" where
  "set_left Null q = None"
| "set_left (Node k c l r) q = Some (Node k c q r)"

fun set_right :: "('k, 'm) node \<Rightarrow> ('k, 'm) node \<Rightarrow> ('k, 'm) node option" where
  "set_right Null q = None"
| "set_right (Node k c l r) q = Some (Node k c l q)"

fun set_color :: "('k, 'm) node \<Rightarrow> 'm \<Rightarrow> ('k, 'm) node option" where
  "set_color Null c = None"
| "set_color (Node k c' l r) c = Some (Node k c l r)"

text \<open>
  \<open>rotateLeft(p)\<close> and \<open>rotateRight(p)\<close> return \<open>p\<close> when there is nothing to
  rotate; the new root of the subtree takes the colour of the old one, which becomes RED.
\<close>

fun llrb_rotateLeft :: "'k llrb_node \<Rightarrow> 'k llrbTree \<Rightarrow> 'k llrb_node \<times> 'k llrbTree" where
  "llrb_rotateLeft (Node k c l (Node rk rc rl rr)) s =
     (Node rk c (Node k llrb_RED l rl) rr, s\<lparr>llrb_rotateL := llrb_rotateL s + 1\<rparr>)"
| "llrb_rotateLeft p s = (p, s)"

fun llrb_rotateRight :: "'k llrb_node \<Rightarrow> 'k llrbTree \<Rightarrow> 'k llrb_node \<times> 'k llrbTree" where
  "llrb_rotateRight (Node k c (Node lk lc ll lr) r) s =
     (Node lk c ll (Node k llrb_RED lr r), s\<lparr>llrb_rotateR := llrb_rotateR s + 1\<rparr>)"
| "llrb_rotateRight p s = (p, s)"

text \<open>
  \<open>flipColors(p)\<close> complements the colours of a node and of its two children when the
  node has the opposite colour of both children, and does nothing otherwise.
\<close>

fun flipColors :: "'k llrb_node \<Rightarrow> 'k llrb_node" where
  "flipColors (Node k c (Node lk lc ll lr) (Node rk rc rl rr)) =
     (if (c = llrb_RED \<and> lc \<noteq> llrb_RED \<and> rc \<noteq> llrb_RED)
         \<or> (c \<noteq> llrb_RED \<and> lc = llrb_RED \<and> rc = llrb_RED)
      then Node k (\<not> c) (Node lk (\<not> lc) ll lr) (Node rk (\<not> rc) rl rr)
      else Node k c (Node lk lc ll lr) (Node rk rc rl rr))"
| "flipColors p = p"

subsection \<open>Insertion\<close>

text \<open>
  The three repairs at the end of \<open>insert(p, x)\<close>, which are also the body of
  \<open>balance(p)\<close> for a node that is not null.
\<close>

definition fixUp :: "'k llrb_node \<Rightarrow> 'k llrbTree \<Rightarrow> 'k llrb_node \<times> 'k llrbTree" where
  "fixUp p s =
     (let (p1, s1) = (if isRed (right p) \<and> \<not> isRed (left p) then llrb_rotateLeft p s else (p, s));
          (p2, s2) = (if isRed (left p1) \<and> isRed (left (left p1)) then llrb_rotateRight p1 s1
                      else (p1, s1))
      in (if isRed (left p2) \<and> isRed (right p2) then flipColors p2 else p2, s2))"

fun llrb_insert_rec ::
  "config \<Rightarrow> 'k::linorder \<Rightarrow> 'k llrb_node \<Rightarrow> 'k llrbTree \<Rightarrow> 'k llrb_node \<times> 'k llrbTree" where
  "llrb_insert_rec cfg x Null s =
     llrb_newNode cfg x llrb_RED (s\<lparr>llrb_a := True, count := count s + 1\<rparr>)"
| "llrb_insert_rec cfg x (Node k c l r) s =
     (let (p, s1) =
            (if x < k then
               (let (l', s') = llrb_insert_rec cfg x l s in (Node k c l' r, s'))
             else if x > k then
               (let (r', s') = llrb_insert_rec cfg x r s in (Node k c l r', s'))
             else (Node k c l r, s\<lparr>llrb_a := False\<rparr>))
      in fixUp p s1)"

text \<open>\<open>bool insert(K const& x)\<close>.\<close>

definition llrb_insert ::
  "config \<Rightarrow> 'k::linorder \<Rightarrow> 'k llrbTree \<Rightarrow> (bool \<times> 'k llrbTree) option" where
  "llrb_insert cfg x s =
     (let s0 = s\<lparr>llrb_a := False\<rparr> in
      if root s0 \<noteq> Null then
        (let (t, s1) = llrb_insert_rec cfg x (root s0) s0 in
         do { t' \<leftarrow> set_color t llrb_BLACK; Some (llrb_a s1, s1\<lparr>root := t'\<rparr>) })
      else
        (let (n, s1) = llrb_newNode cfg x llrb_BLACK s0 in
         Some (True, s1\<lparr>root := n, llrb_a := True, count := count s1 + 1\<rparr>)))"

subsection \<open>Erasure\<close>

fun balance :: "'k llrb_node \<Rightarrow> 'k llrbTree \<Rightarrow> 'k llrb_node \<times> 'k llrbTree" where
  "balance Null s = (Null, s)"
| "balance (Node k c l r) s = fixUp (Node k c l r) s"

fun moveRedLeft :: "'k llrb_node \<Rightarrow> 'k llrbTree \<Rightarrow> ('k llrb_node \<times> 'k llrbTree) option" where
  "moveRedLeft p s =
     (case flipColors p of
        Null \<Rightarrow> None
      | Node k c l r \<Rightarrow>
          if r \<noteq> Null \<and> isRed (left r) then
            (let (r', s1) = llrb_rotateRight r s;
                 (p1, s2) = llrb_rotateLeft (Node k c l r') s1
             in Some (flipColors p1, s2))
          else Some (Node k c l r, s))"

fun moveRedRight :: "'k llrb_node \<Rightarrow> 'k llrbTree \<Rightarrow> ('k llrb_node \<times> 'k llrbTree) option" where
  "moveRedRight p s =
     (case flipColors p of
        Null \<Rightarrow> None
      | Node k c l r \<Rightarrow>
          if l \<noteq> Null \<and> isRed (left l) then
            (let (p1, s1) = llrb_rotateRight (Node k c l r) s in Some (flipColors p1, s1))
          else Some (Node k c l r, s))"

fun llrb_min :: "'k llrb_node \<Rightarrow> 'k llrb_node option" where
  "llrb_min Null = None"
| "llrb_min (Node k c l r) = (if l = Null then Some (Node k c l r) else llrb_min l)"

fun llrb_max :: "'k llrb_node \<Rightarrow> 'k llrb_node option" where
  "llrb_max Null = None"
| "llrb_max (Node k c l r) = (if r = Null then Some (Node k c l r) else llrb_max r)"

text \<open>
  The rotations and the colour flips keep the number of nodes of a subtree; it is the
  measure of the recursions of \<open>deleteMin\<close>, \<open>deleteMax\<close> and \<open>erase\<close>, which
  descend into a child of the subtree that \<open>moveRedLeft\<close>, \<open>moveRedRight\<close> or a
  rotation returns.
\<close>

lemma num_nodes_left: "p \<noteq> Null \<Longrightarrow> num_nodes (left p) < num_nodes p"
  by (cases p) auto

lemma num_nodes_right: "p \<noteq> Null \<Longrightarrow> num_nodes (right p) < num_nodes p"
  by (cases p) auto

lemma llrb_rotateLeft_nodes:
  "llrb_rotateLeft p s = (p', s') \<Longrightarrow> num_nodes p' = num_nodes p \<and> (p \<noteq> Null \<longrightarrow> p' \<noteq> Null)"
  by (cases "(p, s)" rule: llrb_rotateLeft.cases) auto

lemma llrb_rotateRight_nodes:
  "llrb_rotateRight p s = (p', s') \<Longrightarrow> num_nodes p' = num_nodes p \<and> (p \<noteq> Null \<longrightarrow> p' \<noteq> Null)"
  by (cases "(p, s)" rule: llrb_rotateRight.cases) auto

lemma flipColors_nodes: "num_nodes (flipColors p) = num_nodes p \<and> (p \<noteq> Null \<longrightarrow> flipColors p \<noteq> Null)"
  by (cases p rule: flipColors.cases) auto

lemma moveRedLeft_nodes:
  assumes "moveRedLeft p s = Some (p', s')"
  shows "num_nodes p' = num_nodes p \<and> p' \<noteq> Null"
proof -
  obtain k c l r where f: "flipColors p = Node k c l r"
    using assms by (cases "flipColors p") auto
  have n: "num_nodes (Node k c l r) = num_nodes p" using flipColors_nodes[of p] f by simp
  show ?thesis
  proof (cases "r \<noteq> Null \<and> isRed (left r)")
    case False
    then have "p' = Node k c l r" using assms f by auto
    then show ?thesis using n by simp
  next
    case True
    obtain r' s1 where a: "llrb_rotateRight r s = (r', s1)" by (cases "llrb_rotateRight r s")
    obtain p1 s2 where b: "llrb_rotateLeft (Node k c l r') s1 = (p1, s2)"
      by (cases "llrb_rotateLeft (Node k c l r') s1")
    have "p' = flipColors p1" using assms f True a b by simp
    then show ?thesis
      using llrb_rotateRight_nodes[OF a] llrb_rotateLeft_nodes[OF b] flipColors_nodes[of p1] n
      by auto
  qed
qed

lemma moveRedRight_nodes:
  assumes "moveRedRight p s = Some (p', s')"
  shows "num_nodes p' = num_nodes p \<and> p' \<noteq> Null"
proof -
  obtain k c l r where f: "flipColors p = Node k c l r"
    using assms by (cases "flipColors p") auto
  have n: "num_nodes (Node k c l r) = num_nodes p" using flipColors_nodes[of p] f by simp
  show ?thesis
  proof (cases "l \<noteq> Null \<and> isRed (left l)")
    case False
    then have "p' = Node k c l r" using assms f by auto
    then show ?thesis using n by simp
  next
    case True
    obtain p1 s1 where b: "llrb_rotateRight (Node k c l r) s = (p1, s1)"
      by (cases "llrb_rotateRight (Node k c l r) s")
    have "p' = flipColors p1" using assms f True b by simp
    then show ?thesis
      using llrb_rotateRight_nodes[OF b] flipColors_nodes[of p1] n by auto
  qed
qed

text \<open>\<open>Node* deleteMin(Node* p)\<close>.\<close>

function deleteMin_rec ::
  "config \<Rightarrow> 'k llrb_node \<Rightarrow> 'k llrbTree \<Rightarrow> ('k llrb_node \<times> 'k llrbTree) option" where
  "deleteMin_rec cfg Null s = None"
| "deleteMin_rec cfg (Node k c l r) s =
     (if l = Null then
        do {
          s1 \<leftarrow> llrb_deleteNode cfg (Node k c l r) s;
          Some (Null, s1\<lparr>llrb_r := True, count := count s1 - 1\<rparr>)
        }
      else
        do {
          (p1, s1) \<leftarrow> (if \<not> isRed l \<and> \<not> isRed (left l) then moveRedLeft (Node k c l r) s
                        else Some (Node k c l r, s));
          (l', s2) \<leftarrow> deleteMin_rec cfg (left p1) s1;
          p2 \<leftarrow> set_left p1 l';
          Some (balance p2 s2)
        })"
  by pat_completeness auto
termination
proof (relation "measure (\<lambda>(cfg, p, s). num_nodes p)", goal_cases)
  case 1
  then show ?case by simp
next
  case (2 cfg k c l r s x xa y)
  then show ?case
    using moveRedLeft_nodes[of "Node k c l r" s xa y] num_nodes_left[of xa]
    by (auto split: if_splits)
qed

text \<open>\<open>Node* deleteMax(Node* p)\<close>.\<close>

function deleteMax_rec ::
  "config \<Rightarrow> 'k llrb_node \<Rightarrow> 'k llrbTree \<Rightarrow> ('k llrb_node \<times> 'k llrbTree) option" where
  "deleteMax_rec cfg Null s = None"
| "deleteMax_rec cfg (Node k c l r) s =
     (let (p1, s1) = (if isRed l then llrb_rotateRight (Node k c l r) s else (Node k c l r, s)) in
      if right p1 = Null then
        do {
          s2 \<leftarrow> llrb_deleteNode cfg p1 s1;
          Some (Null, s2\<lparr>llrb_r := True, count := count s2 - 1\<rparr>)
        }
      else
        do {
          (p2, s2) \<leftarrow> (if \<not> isRed (right p1) \<and> \<not> isRed (left (right p1))
                        then moveRedRight p1 s1 else Some (p1, s1));
          (r', s3) \<leftarrow> deleteMax_rec cfg (right p2) s2;
          p3 \<leftarrow> set_right p2 r';
          Some (balance p3 s3)
        })"
  by pat_completeness auto
termination
proof (relation "measure (\<lambda>(cfg, p, s). num_nodes p)", goal_cases)
  case 1
  then show ?case by simp
next
  case (2 cfg k c l r s x p1 s1 xa p2 s2)
  have a: "num_nodes p1 = num_nodes (Node k c l r) \<and> p1 \<noteq> Null"
    using 2(1,2) llrb_rotateRight_nodes[of "Node k c l r" s p1 s1]
    by (auto split: if_splits)
  have "num_nodes p2 = num_nodes p1 \<and> p2 \<noteq> Null"
    using 2(4,5) a moveRedRight_nodes[of p1 s1 p2 s2] by (auto split: if_splits)
  then show ?case using a num_nodes_right[of p2] by simp
qed

text \<open>\<open>Node* eraseMax(Node* p)\<close>, of the build with \<open>ENABLE_PREFERRED_TEST\<close>.\<close>

fun eraseMax ::
  "config \<Rightarrow> 'k llrb_node \<Rightarrow> 'k llrbTree \<Rightarrow> ('k llrb_node \<times> 'k llrbTree) option" where
  "eraseMax cfg Null s = Some (Null, s)"
| "eraseMax cfg (Node k c l r) s =
     do {
       (p, s1) \<leftarrow> deleteMax_rec cfg
                    (if \<not> isRed l \<and> \<not> isRed r then Node k llrb_RED l r else Node k c l r) s;
       Some (case p of Null \<Rightarrow> Null | Node k' c' l' r' \<Rightarrow> Node k' llrb_BLACK l' r', s1)
     }"

definition getSize :: "'k llrb_node \<Rightarrow> size_t" where
  "getSize p = of_nat (num_nodes p)"

text \<open>
  The branch \<open>if ( x == p->key ) { r = true; ... }\<close> of \<open>erase(p, x)\<close>, which
  replaces the key of a node by the key of another node and removes that node.  The
  test of the preferred replacement is \<open>if (false)\<close> when \<open>FORCE_SUCCESSOR\<close> is
  defined, and the branch of the predecessor is compiled with
  \<open>ENABLE_PREFERRED_TEST\<close> only.
\<close>

definition preferred_test :: "config \<Rightarrow> 'k llrb_node \<Rightarrow> bool" where
  "preferred_test cfg p =
     (if FORCE_SUCCESSOR then False
      else if INVERT_PREFERRED_TEST cfg then getSize (left p) < getSize (right p)
      else getSize (left p) \<ge> getSize (right p))"

fun erase_replace ::
  "config \<Rightarrow> 'k llrb_node \<Rightarrow> 'k llrbTree \<Rightarrow> ('k llrb_node \<times> 'k llrbTree) option" where
  "erase_replace cfg Null s = None"
| "erase_replace cfg (Node k c l r) s =
     (let s0 = s\<lparr>llrb_r := True\<rparr> in
      if ENABLE_PREFERRED_TEST cfg \<and> preferred_test cfg (Node k c l r) then
        do {
          aux \<leftarrow> llrb_max l;
          (l', s1) \<leftarrow> eraseMax cfg l s0;
          if c = llrb_RED \<and> isRed l' then
            do { l'' \<leftarrow> set_color l' llrb_BLACK; Some (Node (key aux) c l'' r, s1) }
          else Some (Node (key aux) c l' r, s1)
        }
      else
        do {
          aux \<leftarrow> llrb_min r;
          (r', s1) \<leftarrow> deleteMin_rec cfg r s0;
          Some (Node (key aux) c l r', s1)
        })"

text \<open>\<open>Node* erase(Node* p, K const& x)\<close>.\<close>

function llrb_erase_rec ::
  "config \<Rightarrow> 'k::linorder \<Rightarrow> 'k llrb_node \<Rightarrow> 'k llrbTree
     \<Rightarrow> ('k llrb_node \<times> 'k llrbTree) option" where
  "llrb_erase_rec cfg x Null s = Some (Null, s\<lparr>llrb_r := False\<rparr>)"
| "llrb_erase_rec cfg x (Node k c l r) s =
     (if x < k then
        do {
          (p1, s1) \<leftarrow> (if \<not> isRed l \<and> l \<noteq> Null \<and> \<not> isRed (left l)
                        then moveRedLeft (Node k c l r) s else Some (Node k c l r, s));
          (l', s2) \<leftarrow> llrb_erase_rec cfg x (left p1) s1;
          p2 \<leftarrow> set_left p1 l';
          Some (balance p2 s2)
        }
      else
        (let (p1, s1) = (if isRed l then llrb_rotateRight (Node k c l r) s
                         else (Node k c l r, s)) in
         if x = key p1 \<and> right p1 = Null then
           do {
             s2 \<leftarrow> llrb_deleteNode cfg p1 s1;
             Some (Null, s2\<lparr>count := count s2 - 1, llrb_r := True\<rparr>)
           }
         else
           do {
             (p2, s2) \<leftarrow> (if \<not> isRed (right p1) \<and> right p1 \<noteq> Null \<and> \<not> isRed (left (right p1))
                           then moveRedRight p1 s1 else Some (p1, s1));
             (p3, s3) \<leftarrow>
               (if x = key p2 then erase_replace cfg p2 s2
                else
                  do {
                    (r', s3) \<leftarrow> llrb_erase_rec cfg x (right p2) s2;
                    p3 \<leftarrow> set_right p2 r';
                    Some (p3, s3)
                  });
             Some (balance p3 s3)
           }))"
  by pat_completeness auto
termination
proof (relation "measure (\<lambda>(cfg, x, p, s). num_nodes p)", goal_cases)
  case 1
  then show ?case by simp
next
  case (2 cfg x k c l r s xa p1 s1)
  then show ?case
    using moveRedLeft_nodes[of "Node k c l r" s p1 s1] num_nodes_left[of p1]
    by (auto split: if_splits)
next
  case (3 cfg x k c l r s xa p1 s1 xb p2 s2)
  have a: "num_nodes p1 = num_nodes (Node k c l r) \<and> p1 \<noteq> Null"
    using 3(2,3) llrb_rotateRight_nodes[of "Node k c l r" s p1 s1]
    by (auto split: if_splits)
  have "num_nodes p2 = num_nodes p1 \<and> p2 \<noteq> Null"
    using 3(5,6) a moveRedRight_nodes[of p1 s1 p2 s2] by (auto split: if_splits)
  then show ?case using a num_nodes_right[of p2] by simp
qed

text \<open>\<open>bool erase(K const& x)\<close>.\<close>

definition llrb_erase ::
  "config \<Rightarrow> 'k::linorder \<Rightarrow> 'k llrbTree \<Rightarrow> (bool \<times> 'k llrbTree) option" where
  "llrb_erase cfg x s =
     (let s0 = s\<lparr>llrb_r := False\<rparr> in
      case root s0 of
        Null \<Rightarrow> Some (llrb_r s0, s0)
      | Node k c l r \<Rightarrow>
          do {
            (t, s1) \<leftarrow> llrb_erase_rec cfg x
                         (if \<not> isRed l \<and> \<not> isRed r then Node k llrb_RED l r else Node k c l r) s0;
            (case t of
               Null \<Rightarrow> Some (llrb_r s1, s1\<lparr>root := Null\<rparr>)
             | Node k' c' l' r' \<Rightarrow> Some (llrb_r s1, s1\<lparr>root := Node k' llrb_BLACK l' r'\<rparr>))
          })"

text \<open>
  \<open>size()\<close> and \<open>contains(x)\<close> of the default build; \<open>contains\<close> is the loop of
  avlTree.h.
\<close>

definition llrb_size :: "'k llrbTree \<Rightarrow> size_t" where
  "llrb_size s = count s"

definition llrb_contains :: "'k::linorder llrbTree \<Rightarrow> 'k \<Rightarrow> bool" where
  "llrb_contains s x = contains_loop (root s) x"

section \<open>Specification of the bottom-up red-black tree\<close>

text \<open>
  The number of BLACK nodes on the leftmost path of a subtree, where a DOUBLE_BLACK node
  counts twice, and the invariant of the red-black trees: no node is DOUBLE_BLACK, no RED
  node has a RED child, and in every node the two subtrees have the same number of BLACK
  nodes on their leftmost paths, so that every path from a node to a null pointer holds
  the same number of BLACK nodes.
\<close>

fun rb_bh :: "'k rb_node \<Rightarrow> nat" where
  "rb_bh Null = 0"
| "rb_bh (Node k c l r) = rb_bh l + (case c of RED \<Rightarrow> 0 | BLACK \<Rightarrow> 1 | DOUBLE_BLACK \<Rightarrow> 2)"

fun rb_inv :: "'k rb_node \<Rightarrow> bool" where
  "rb_inv Null = True"
| "rb_inv (Node k c l r) =
     (c \<noteq> DOUBLE_BLACK \<and> (c = RED \<longrightarrow> getColor l = BLACK \<and> getColor r = BLACK)
      \<and> rb_bh l = rb_bh r \<and> rb_inv l \<and> rb_inv r)"

text \<open>
  The invariant of a path: every sibling subtree satisfies the invariant and has the
  number of BLACK nodes that the subtree at the end of the path is expected to have, and
  the parent of a RED node on the path is BLACK.  \<open>path_pre\<close> and \<open>path_post\<close> are
  the keys before and after the subtree at the end of the path, in order.
\<close>

fun frame_ok :: "'k frame \<Rightarrow> nat \<Rightarrow> bool" where
  "frame_ok (LeftOf k c r) n =
     (c \<noteq> DOUBLE_BLACK \<and> rb_inv r \<and> rb_bh r = n \<and> (c = RED \<longrightarrow> getColor r = BLACK))"
| "frame_ok (RightOf k c l) n =
     (c \<noteq> DOUBLE_BLACK \<and> rb_inv l \<and> rb_bh l = n \<and> (c = RED \<longrightarrow> getColor l = BLACK))"

fun path_inv :: "'k path \<Rightarrow> nat \<Rightarrow> bool" where
  "path_inv [] n = True"
| "path_inv (f # rest) n =
     (frame_ok f n
      \<and> (frame_color f = RED \<longrightarrow> rest \<noteq> [] \<and> frame_color (hd rest) = BLACK)
      \<and> path_inv rest (n + (if frame_color f = BLACK then 1 else 0)))"

fun path_pre :: "'k path \<Rightarrow> 'k list" where
  "path_pre [] = []"
| "path_pre (LeftOf k c r # rest) = path_pre rest"
| "path_pre (RightOf k c l # rest) = path_pre rest @ inorder l @ [k]"

fun path_post :: "'k path \<Rightarrow> 'k list" where
  "path_post [] = []"
| "path_post (LeftOf k c r # rest) = k # inorder r @ path_post rest"
| "path_post (RightOf k c l # rest) = path_post rest"

text \<open>
  Two states with the same tree, size, freed list and calls of \<open>new\<close> and
  \<open>delete\<close>.
\<close>

definition same_pool :: "('k, 'm, 'z) tree_scheme \<Rightarrow> ('k, 'm, 'z) tree_scheme \<Rightarrow> bool" where
  "same_pool s s' \<longleftrightarrow> root s' = root s \<and> count s' = count s \<and> freed s' = freed s
      \<and> news s' = news s \<and> deletes s' = deletes s"

text \<open>
  The invariant of \<open>class burbTree\<close> between two calls: the invariant of the
  red-black trees, a BLACK root, the order of the keys, and \<open>count\<close> is the number of
  nodes.
\<close>

definition burb_ok :: "'k::linorder burbTree \<Rightarrow> bool" where
  "burb_ok s \<longleftrightarrow> rb_inv (root s) \<and> getColor (root s) = BLACK \<and> bst (root s)
     \<and> count s = of_nat (num_nodes (root s))"

text \<open>
  The invariant of the subtree at the end of a path during a search, where a RED subtree
  has a BLACK parent and the root of the tree is BLACK.
\<close>

definition pos_ok :: "'k path \<Rightarrow> 'k rb_node \<Rightarrow> bool" where
  "pos_ok path t \<longleftrightarrow> rb_inv t \<and> path_inv path (rb_bh t)
     \<and> (path \<noteq> [] \<and> frame_color (hd path) = RED \<longrightarrow> getColor t = BLACK)
     \<and> (path = [] \<longrightarrow> getColor t = BLACK)"

text \<open>
  During the loop of \<open>fixErasure\<close> the node to remove is in the tree.  \<open>virt rel ptr v nd\<close>
  says that \<open>nd\<close> is the node at the directions \<open>rel\<close> below \<open>ptr\<close> and \<open>v\<close> the
  subtree of \<open>ptr\<close> without it.  \<open>loop_post\<close> is the postcondition of the loop: the
  tree without the node satisfies the invariant once its root is BLACK, and has the keys
  that the tree without the node had before the loop.
\<close>

definition virt :: "dir list \<Rightarrow> 'k rb_node \<Rightarrow> 'k rb_node \<Rightarrow> 'k rb_node \<Rightarrow> bool" where
  "virt rel ptr v nd \<longleftrightarrow> get_at rel ptr = Some nd \<and> replace_at rel ptr Null = Some v"

definition loop_post ::
  "'k path \<Rightarrow> 'k rb_node \<Rightarrow> 'k rb_node \<Rightarrow> 'k burbTree
     \<Rightarrow> ('k path \<times> 'k rb_node \<times> dir list \<times> 'k burbTree) option \<Rightarrow> bool" where
  "loop_post path vp nd s res \<longleftrightarrow>
     (\<exists>path' ptr' rel' s' v'. res = Some (path', ptr', rel', s') \<and> virt rel' ptr' v' nd
        \<and> rel' \<noteq> [] \<and> rb_inv (setColor (plug path' v') BLACK)
        \<and> inorder (plug path' v') = inorder (plug path vp) \<and> same_pool s s')"

section \<open>Specification of the left-leaning red-black tree\<close>

text \<open>
  Two states of a left-leaning red-black tree that differ in the rotation counters only.
\<close>

definition rot_only :: "'k llrbTree \<Rightarrow> 'k llrbTree \<Rightarrow> bool" where
  "rot_only s s' \<longleftrightarrow> root s' = root s \<and> count s' = count s \<and> freed s' = freed s
      \<and> news s' = news s \<and> deletes s' = deletes s \<and> llrb_a s' = llrb_a s \<and> llrb_r s' = llrb_r s"


fun has_succ :: "'k::linorder \<Rightarrow> 'k \<Rightarrow> ('k, 'm) node \<Rightarrow> bool" where
  "has_succ x nk Null = False"
| "has_succ x nk (Node k c l r) =
     (if x < k then has_succ x nk l else if k < x then has_succ x nk r
      else r \<noteq> Null \<and> leftmost r = nk)"

section \<open>Sequences of calls\<close>

text \<open>
  A sequence of calls of \<open>insert\<close> and \<open>erase\<close>, its run on a tree of each class, and
  the keys that are live after it: those inserted and not erased afterwards.
\<close>

datatype 'k op = Insert 'k | Erase 'k

fun avl_run :: "config \<Rightarrow> 'k::linorder op list \<Rightarrow> 'k avlTree \<Rightarrow> 'k avlTree option" where
  "avl_run cfg [] s = Some s"
| "avl_run cfg (Insert x # ops) s = do { (b, s') \<leftarrow> avl_insert cfg x s; avl_run cfg ops s' }"
| "avl_run cfg (Erase x # ops) s = do { (b, s') \<leftarrow> avl_erase cfg x s; avl_run cfg ops s' }"

fun burb_run :: "'k::linorder op list \<Rightarrow> 'k burbTree \<Rightarrow> 'k burbTree option" where
  "burb_run [] s = Some s"
| "burb_run (Insert x # ops) s = do { (b, s') \<leftarrow> burb_insert x s; burb_run ops s' }"
| "burb_run (Erase x # ops) s = do { (b, s') \<leftarrow> burb_erase x s; burb_run ops s' }"

fun live_keys :: "'k op list \<Rightarrow> 'k set \<Rightarrow> 'k set" where
  "live_keys [] S = S"
| "live_keys (Insert x # ops) S = live_keys ops (insert x S)"
| "live_keys (Erase x # ops) S = live_keys ops (S - {x})"

fun llrb_run :: "config \<Rightarrow> 'k::linorder op list \<Rightarrow> 'k llrbTree \<Rightarrow> 'k llrbTree option" where
  "llrb_run cfg [] s = Some s"
| "llrb_run cfg (Insert x # ops) s = do { (b, s') \<leftarrow> llrb_insert cfg x s; llrb_run cfg ops s' }"
| "llrb_run cfg (Erase x # ops) s = do { (b, s') \<leftarrow> llrb_erase cfg x s; llrb_run cfg ops s' }"

section \<open>Verification of the AVL tree\<close>

lemma keys_simps [simp]: "keys Null = {}" "keys (Node k b l r) = insert k (keys l \<union> keys r)"
  by (auto simp: keys_def)

lemma height_0_iff [simp]: "height t = 0 \<longleftrightarrow> t = Null"
  by (cases t) auto

lemma balanceInsertLeft_ok:
  assumes "avl_inv l" "avl_inv r" "height l = hl + 1"
    and "b = int (height r) - int hl" "- 1 \<le> b" "b \<le> 1"
    and "bal l = 0 \<longrightarrow> hl = 0"
  shows "\<exists>p' s'. balanceInsertLeft (Node k b l r) s = Some (p', s')
      \<and> avl_inv p' \<and> p' \<noteq> Null \<and> inorder p' = inorder l @ k # inorder r
      \<and> (if b = 0 then flag_h s' = flag_h s \<and> height p' = max hl (height r) + 2 \<and> bal p' \<noteq> 0 
          else \<not> flag_h s' \<and> height p' = max hl (height r) + 1)
      \<and> (ins_rots s' \<noteq> ins_rots s \<longrightarrow> b = - 1 \<and> bal p' = 0)
      \<and> (b \<noteq> - 1 \<longrightarrow> p' = Node k (b - 1) l r)"
proof -
  consider "b = 1" | "b = 0" | "b = -1" using assms(5,6) by linarith
  then show ?thesis
  proof cases
    case 1
    then show ?thesis using assms by (auto simp: ins_rots_def)
  next
    case 2
    then show ?thesis using assms by (auto simp: ins_rots_def)
  next
    case 3
    obtain k1 b1 l1 r1 where l: "l = Node k1 b1 l1 r1" using assms(3) by (cases l) auto
    show ?thesis
    proof (cases "b1 = -1")
      case True
      then show ?thesis using 3 l assms by (auto simp: ins_rots_def)
    next
      case False
      then have b1: "b1 = 1" using 3 l assms by auto
      then obtain k2 b2 l2 r2 where r1: "r1 = Node k2 b2 l2 r2" using l assms(1) by (cases r1) auto
      show ?thesis using 3 l b1 r1 assms by (auto simp: ins_rots_def split: if_splits)
    qed
  qed
qed

lemma balanceInsertRight_ok:
  assumes "avl_inv l" "avl_inv r" "height r = hr + 1"
    and "b = int hr - int (height l)" "- 1 \<le> b" "b \<le> 1"
    and "bal r = 0 \<longrightarrow> hr = 0"
  shows "\<exists>p' s'. balanceInsertRight (Node k b l r) s = Some (p', s')
      \<and> avl_inv p' \<and> p' \<noteq> Null \<and> inorder p' = inorder l @ k # inorder r
      \<and> (if b = 0 then flag_h s' = flag_h s \<and> height p' = max (height l) hr + 2 \<and> bal p' \<noteq> 0 
          else \<not> flag_h s' \<and> height p' = max (height l) hr + 1)
      \<and> (ins_rots s' \<noteq> ins_rots s \<longrightarrow> b = 1 \<and> bal p' = 0)
      \<and> (b \<noteq> 1 \<longrightarrow> p' = Node k (b + 1) l r)"
proof -
  consider "b = 1" | "b = 0" | "b = -1" using assms(5,6) by linarith
  then show ?thesis
  proof cases
    case 3
    then show ?thesis using assms by (auto simp: ins_rots_def)
  next
    case 2
    then show ?thesis using assms by (auto simp: ins_rots_def)
  next
    case 1
    obtain k1 b1 l1 r1 where r: "r = Node k1 b1 l1 r1" using assms(3) by (cases r) auto
    show ?thesis
    proof (cases "b1 = 1")
      case True
      then show ?thesis using 1 r assms by (auto simp: ins_rots_def)
    next
      case False
      then have b1: "b1 = -1" using 1 r assms by auto
      then obtain k2 b2 l2 r2 where l1: "l1 = Node k2 b2 l2 r2" using r assms(2) by (cases l1) auto
      show ?thesis using 1 r b1 l1 assms by (auto simp: ins_rots_def split: if_splits)
    qed
  qed
qed

lemma bst_iff_sorted: "bst t \<longleftrightarrow> sorted_wrt (<) (inorder t)"
  by (induction t) (force simp: sorted_wrt_append keys_def)+

lemma insert_postI:
  assumes "avl_inv t'" "t' \<noteq> Null" "keys t' = insert x (keys t)" "bst t'"
     "flag_a s' = (x \<notin> keys t)"
     "x \<in> keys t \<Longrightarrow> t' = t \<and> \<not> flag_h s' \<and> ins_rots s' = ins_rots s"
     "flag_h s' \<Longrightarrow> height t' = height t + 1 \<and> (bal t' = 0 \<longrightarrow> t = Null)"
     "\<not> flag_h s' \<Longrightarrow> height t' = height t"
     "ins_rots s' \<noteq> ins_rots s \<Longrightarrow> \<not> flag_h s'"
     "root s' = root s \<and> count s' = count s \<and> deletes s' = deletes s"
  shows "insert_post t x s t' s'"
  unfolding insert_post_def using assms by blast

lemma insert_post_leaf:
  "newNode cfg x s = (n, s0) \<Longrightarrow> insert_post Null x s n (s0\<lparr>flag_a := True\<rparr>)"
  by (auto simp: newNode_def insert_post_def ins_rots_def split: node.splits if_splits)

lemma balanceInsertLeft_frame:
  "balanceInsertLeft p s = Some (p', s') \<Longrightarrow>
     root s' = root s \<and> count s' = count s \<and> flag_a s' = flag_a s \<and> flag_r s' = flag_r s
     \<and> freed s' = freed s \<and> news s' = news s \<and> deletes s' = deletes s
     \<and> lle s' = lle s \<and> lre s' = lre s \<and> rle s' = rle s \<and> rre s' = rre s"
  by (cases p) (auto split: if_splits node.splits)

lemma balanceInsertRight_frame:
  "balanceInsertRight p s = Some (p', s') \<Longrightarrow>
     root s' = root s \<and> count s' = count s \<and> flag_a s' = flag_a s \<and> flag_r s' = flag_r s
     \<and> freed s' = freed s \<and> news s' = news s \<and> deletes s' = deletes s
     \<and> lle s' = lle s \<and> lre s' = lre s \<and> rle s' = rle s \<and> rre s' = rre s"
  by (cases p) (auto split: if_splits node.splits)

lemma insert_post_left:
  assumes post: "insert_post l x s l' s1" and lt: "x < k"
    and inv: "avl_inv (Node k b l r)" and ord: "bst (Node k b l r)"
    and h: "flag_h s1"
  shows "\<exists>p' s'. balanceInsertLeft (Node k b l' r) s1 = Some (p', s')
            \<and> insert_post (Node k b l r) x s p' s'"
proof -
  have hl: "height l' = height l + 1" "bal l' = 0 \<longrightarrow> height l = 0" "avl_inv l'"
    using post h by (auto simp: insert_post_def)
  have inv': "avl_inv r" "b = int (height r) - int (height l)" "-1 \<le> b" "b \<le> 1"
    using inv by auto
  from balanceInsertLeft_ok[OF hl(3) inv'(1) hl(1) inv'(2,3,4) hl(2), of k s1] 
  obtain p' s' where p': "balanceInsertLeft (Node k b l' r) s1 = Some (p', s')"
    "avl_inv p'" "p' \<noteq> Null" "inorder p' = inorder l' @ k # inorder r"
    "(if b = 0 then flag_h s' = flag_h s1 \<and> height p' = max (height l) (height r) + 2 \<and> bal p' \<noteq> 0 
      else \<not> flag_h s' \<and> height p' = max (height l) (height r) + 1)"
    "ins_rots s' \<noteq> ins_rots s1 \<longrightarrow> b = - 1 \<and> bal p' = 0"
    by blast
  have xl: "x \<notin> keys l" "ins_rots s1 = ins_rots s" "flag_a s1" "keys l' = insert x (keys l)" "bst l'"
    using post h by (auto simp: insert_post_def)
  have xr: "x \<notin> keys r" "x \<noteq> k" using ord lt by auto
  have "bst (Node k b l' r)" using xl ord lt by auto
  then have 1: "bst p'" using p'(4) by (simp add: bst_iff_sorted)
  have 2: "keys p' = insert x (keys (Node k b l r))" using p'(4) xl(4)
    by (auto simp: keys_def)
  have 3: "flag_a s' = flag_a s1"
    using balanceInsertLeft_frame[OF p'(1)] by simp
  have 4: "x \<notin> keys (Node k b l r)" using xl xr by auto
  have 5: "flag_h s' \<longrightarrow> height p' = height (Node k b l r) + 1 \<and> bal p' \<noteq> 0"
    using p'(5) by (auto split: if_splits)
  have 6: "\<not> flag_h s' \<longrightarrow> height p' = height (Node k b l r)"
    using p'(5) h by (auto split: if_splits)
  have 7: "ins_rots s' \<noteq> ins_rots s \<longrightarrow> \<not> flag_h s'"
    using p'(5,6) xl(2) by (auto split: if_splits)
  have fr: "root s1 = root s" "count s1 = count s" "deletes s1 = deletes s"
    using post unfolding insert_post_def by blast+
  have 8: "root s' = root s \<and> count s' = count s \<and> deletes s' = deletes s"
    using balanceInsertLeft_frame[OF p'(1)] fr by simp
  have "insert_post (Node k b l r) x s p' s'"
  proof (rule insert_postI)
    show "flag_a s' = (x \<notin> keys (Node k b l r))" using 3 4 xl(3) by simp
    show "p' = Node k b l r \<and> \<not> flag_h s' \<and> ins_rots s' = ins_rots s"
      if "x \<in> keys (Node k b l r)" using that 4 by simp
    show "height p' = height (Node k b l r) + 1 \<and> (bal p' = 0 \<longrightarrow> Node k b l r = Null)"
      if "flag_h s'" using that 5 by simp
    show "height p' = height (Node k b l r)" if "\<not> flag_h s'" using that 6 by simp
    show "\<not> flag_h s'" if "ins_rots s' \<noteq> ins_rots s" using that 7 by simp
  qed (use p'(2,3) 1 2 8 in simp_all)
  then show ?thesis using p'(1) by blast
qed

lemma insert_post_right:
  assumes post: "insert_post r x s r' s1" and gt: "k < x"
    and inv: "avl_inv (Node k b l r)" and ord: "bst (Node k b l r)"
    and h: "flag_h s1"
  shows "\<exists>p' s'. balanceInsertRight (Node k b l r') s1 = Some (p', s')
            \<and> insert_post (Node k b l r) x s p' s'"
proof -
  have hr: "height r' = height r + 1" "bal r' = 0 \<longrightarrow> height r = 0" "avl_inv r'"
    using post h by (auto simp: insert_post_def)
  have inv': "avl_inv l" "b = int (height r) - int (height l)" "-1 \<le> b" "b \<le> 1"
    using inv by auto
  from balanceInsertRight_ok[OF inv'(1) hr(3) hr(1) inv'(2,3,4) hr(2), of k s1] 
  obtain p' s' where p': "balanceInsertRight (Node k b l r') s1 = Some (p', s')"
    "avl_inv p'" "p' \<noteq> Null" "inorder p' = inorder l @ k # inorder r'"
    "(if b = 0 then flag_h s' = flag_h s1 \<and> height p' = max (height l) (height r) + 2 \<and> bal p' \<noteq> 0 
      else \<not> flag_h s' \<and> height p' = max (height l) (height r) + 1)"
    "ins_rots s' \<noteq> ins_rots s1 \<longrightarrow> b = 1 \<and> bal p' = 0"
    by blast
  have xr: "x \<notin> keys r" "ins_rots s1 = ins_rots s" "flag_a s1" "keys r' = insert x (keys r)" "bst r'"
    using post h by (auto simp: insert_post_def)
  have xl: "x \<notin> keys l" "x \<noteq> k" using ord gt by auto
  have "bst (Node k b l r')" using xr ord gt by auto
  then have 1: "bst p'" using p'(4) by (simp add: bst_iff_sorted)
  have 2: "keys p' = insert x (keys (Node k b l r))" using p'(4) xr(4)
    by (auto simp: keys_def)
  have 3: "flag_a s' = flag_a s1"
    using balanceInsertRight_frame[OF p'(1)] by simp
  have 4: "x \<notin> keys (Node k b l r)" using xl xr by auto
  have 5: "flag_h s' \<longrightarrow> height p' = height (Node k b l r) + 1 \<and> bal p' \<noteq> 0"
    using p'(5) by (auto split: if_splits)
  have 6: "\<not> flag_h s' \<longrightarrow> height p' = height (Node k b l r)"
    using p'(5) h by (auto split: if_splits)
  have 7: "ins_rots s' \<noteq> ins_rots s \<longrightarrow> \<not> flag_h s'"
    using p'(5,6) xr(2) by (auto split: if_splits)
  have fr: "root s1 = root s" "count s1 = count s" "deletes s1 = deletes s"
    using post unfolding insert_post_def by blast+
  have 8: "root s' = root s \<and> count s' = count s \<and> deletes s' = deletes s"
    using balanceInsertRight_frame[OF p'(1)] fr by simp
  have "insert_post (Node k b l r) x s p' s'"
  proof (rule insert_postI)
    show "flag_a s' = (x \<notin> keys (Node k b l r))" using 3 4 xr(3) by simp
    show "p' = Node k b l r \<and> \<not> flag_h s' \<and> ins_rots s' = ins_rots s"
      if "x \<in> keys (Node k b l r)" using that 4 by simp
    show "height p' = height (Node k b l r) + 1 \<and> (bal p' = 0 \<longrightarrow> Node k b l r = Null)"
      if "flag_h s'" using that 5 by simp
    show "height p' = height (Node k b l r)" if "\<not> flag_h s'" using that 6 by simp
    show "\<not> flag_h s'" if "ins_rots s' \<noteq> ins_rots s" using that 7 by simp
  qed (use p'(2,3) 1 2 8 in simp_all)
  then show ?thesis using p'(1) by blast
qed

lemma insert_post_keep_left:
  assumes post: "insert_post l x s l' s1" and lt: "x < k"
    and inv: "avl_inv (Node k b l r)" and ord: "bst (Node k b l r)"
    and h: "\<not> flag_h s1"
  shows "insert_post (Node k b l r) x s (Node k b l' r) s1"
  using assms unfolding insert_post_def by auto

lemma insert_post_keep_right:
  assumes post: "insert_post r x s r' s1" and gt: "k < x"
    and inv: "avl_inv (Node k b l r)" and ord: "bst (Node k b l r)"
    and h: "\<not> flag_h s1"
  shows "insert_post (Node k b l r) x s (Node k b l r') s1"
  using assms unfolding insert_post_def by auto

lemma avl_insert_rec_ok:
  assumes "avl_inv t" "bst t" "t \<noteq> Null"
  shows "\<exists>t' s'. avl_insert_rec cfg t x s = Some (t', s') \<and> insert_post t x s t' s'"
  using assms
proof (induction t arbitrary: s)
  case Null
  then show ?case by simp
next
  case (Node k b l r)
  have inv: "avl_inv l" "avl_inv r" and ord: "bst l" "bst r"
    using Node.prems by auto
  consider (lt) "x < k" | (gt) "k < x" | (eq) "x = k" by (metis less_linear)
  then show ?case
  proof cases
    case eq
    then show ?thesis using Node.prems by (auto simp: insert_post_def ins_rots_def)
  next
    case lt
    let ?sub = "if l \<noteq> Null then avl_insert_rec cfg l x s
             else (let (n, s0) = newNode cfg x s in Some (n, s0\<lparr>flag_a := True\<rparr>))"
    have "\<exists>l' s1. ?sub = Some (l', s1) \<and> insert_post l x s l' s1"
    proof (cases "l = Null")
      case True
      then show ?thesis using insert_post_leaf[of cfg x s] by (cases "newNode cfg x s") auto
    next
      case False
      then show ?thesis using Node.IH(1)[OF inv(1) ord(1) False, of s] by auto
    qed
    then obtain l' s1 where sub: "?sub = Some (l', s1)" and post: "insert_post l x s l' s1" by blast
    show ?thesis
    proof (cases "flag_h s1")
      case False
      have "avl_insert_rec cfg (Node k b l r) x s = Some (Node k b l' r, s1)"
        using lt sub False by simp
      then show ?thesis using insert_post_keep_left[OF post lt Node.prems(1,2) False] by blast
    next
      case True
      from insert_post_left[OF post lt Node.prems(1,2) True]
      obtain p' s' where p': "balanceInsertLeft (Node k b l' r) s1 = Some (p', s')"
        "insert_post (Node k b l r) x s p' s'" by blast
      have "avl_insert_rec cfg (Node k b l r) x s = Some (p', s')"
        using lt sub True p'(1) by (simp del: balanceInsertLeft.simps)
      then show ?thesis using p'(2) by blast
    qed
  next
    case gt
    then have nlt: "\<not> x < k" by auto
    let ?sub = "if r \<noteq> Null then avl_insert_rec cfg r x s
             else (let (n, s0) = newNode cfg x s in Some (n, s0\<lparr>flag_a := True\<rparr>))"
    have "\<exists>r' s1. ?sub = Some (r', s1) \<and> insert_post r x s r' s1"
    proof (cases "r = Null")
      case True
      then show ?thesis using insert_post_leaf[of cfg x s] by (cases "newNode cfg x s") auto
    next
      case False
      then show ?thesis using Node.IH(2)[OF inv(2) ord(2) False, of s] by auto
    qed
    then obtain r' s1 where sub: "?sub = Some (r', s1)" and post: "insert_post r x s r' s1" by blast
    show ?thesis
    proof (cases "flag_h s1")
      case False
      have "avl_insert_rec cfg (Node k b l r) x s = Some (Node k b l r', s1)"
        using gt nlt sub False by simp
      then show ?thesis using insert_post_keep_right[OF post gt Node.prems(1,2) False] by blast
    next
      case True
      from insert_post_right[OF post gt Node.prems(1,2) True]
      obtain p' s' where p': "balanceInsertRight (Node k b l r') s1 = Some (p', s')"
        "insert_post (Node k b l r) x s p' s'" by blast
      have "avl_insert_rec cfg (Node k b l r) x s = Some (p', s')"
        using gt nlt sub True p'(1) by (simp del: balanceInsertRight.simps)
      then show ?thesis using p'(2) by blast
    qed
  qed
qed

lemma balanceEraseLeft_ok:
  assumes "avl_inv l" "avl_inv r" "hl = height l + 1"
    and "b = int (height r) - int hl" "- 1 \<le> b" "b \<le> 1" and "flag_h s"
  shows "\<exists>p' s'. balanceEraseLeft (Node k b l r) s = Some (p', s')
      \<and> avl_inv p' \<and> inorder p' = inorder l @ k # inorder r
      \<and> (flag_h s' \<longrightarrow> height p' = max hl (height r))
      \<and> (\<not> flag_h s' \<longrightarrow> height p' = max hl (height r) + 1)"
proof -
  consider "b = 1" | "b = 0" | "b = -1" using assms(5,6) by linarith
  then show ?thesis
  proof cases
    case 3
    then show ?thesis using assms by auto
  next
    case 2
    then show ?thesis using assms by auto
  next
    case 1
    then obtain k1 b1 l1 r1 where r: "r = Node k1 b1 l1 r1" using assms(3,4) by (cases r) auto
    have "- 1 \<le> b1" "b1 \<le> 1" using assms(2) r by auto
    then consider "b1 = 1" | "b1 = 0" | "b1 = -1" by linarith
    then show ?thesis
    proof cases
      case 1
      then show ?thesis using \<open>b = 1\<close> r assms by auto
    next
      case 2
      then show ?thesis using \<open>b = 1\<close> r assms by auto
    next
      case 3
      then obtain k2 b2 l2 r2 where l1: "l1 = Node k2 b2 l2 r2" using r assms(2) by (cases l1) auto
      show ?thesis using \<open>b = 1\<close> 3 r l1 assms by (auto split: if_splits)
    qed
  qed
qed

lemma balanceEraseRight_ok:
  assumes "avl_inv l" "avl_inv r" "hr = height r + 1"
    and "b = int hr - int (height l)" "- 1 \<le> b" "b \<le> 1" and "flag_h s"
  shows "\<exists>p' s'. balanceEraseRight (Node k b l r) s = Some (p', s')
      \<and> avl_inv p' \<and> inorder p' = inorder l @ k # inorder r
      \<and> (flag_h s' \<longrightarrow> height p' = max (height l) hr)
      \<and> (\<not> flag_h s' \<longrightarrow> height p' = max (height l) hr + 1)"
proof -
  consider "b = 1" | "b = 0" | "b = -1" using assms(5,6) by linarith
  then show ?thesis
  proof cases
    case 1
    then show ?thesis using assms by auto
  next
    case 2
    then show ?thesis using assms by auto
  next
    case 3
    then obtain k1 b1 l1 r1 where l: "l = Node k1 b1 l1 r1" using assms(3,4) by (cases l) auto
    have "- 1 \<le> b1" "b1 \<le> 1" using assms(1) l by auto
    then consider "b1 = 1" | "b1 = 0" | "b1 = -1" by linarith
    then show ?thesis
    proof cases
      case 3
      then show ?thesis using \<open>b = -1\<close> l assms by auto
    next
      case 2
      then show ?thesis using \<open>b = -1\<close> l assms by auto
    next
      case 1
      then obtain k2 b2 l2 r2 where r1: "r1 = Node k2 b2 l2 r2" using l assms(1) by (cases r1) auto
      show ?thesis using \<open>b = -1\<close> 1 l r1 assms by (auto split: if_splits)
    qed
  qed
qed

lemma balanceEraseLeft_frame:
  "balanceEraseLeft p s = Some (p', s') \<Longrightarrow>
     root s' = root s \<and> count s' = count s \<and> flag_a s' = flag_a s \<and> flag_r s' = flag_r s
     \<and> freed s' = freed s \<and> news s' = news s \<and> deletes s' = deletes s
     \<and> ins_rots s' = ins_rots s"
  by (cases p) (auto simp: ins_rots_def split: if_splits node.splits)

lemma balanceEraseRight_frame:
  "balanceEraseRight p s = Some (p', s') \<Longrightarrow>
     root s' = root s \<and> count s' = count s \<and> flag_a s' = flag_a s \<and> flag_r s' = flag_r s
     \<and> freed s' = freed s \<and> news s' = news s \<and> deletes s' = deletes s
     \<and> ins_rots s' = ins_rots s"
  by (cases p) (auto simp: ins_rots_def split: if_splits node.splits)

lemma eraseLeft_ok:
  assumes "avl_inv t" "t \<noteq> Null"
  shows "\<exists>t' kq bq rq s'. eraseLeft t s = Some (t', Node kq bq Null rq, s')
      \<and> inorder t = kq # inorder t' \<and> unlink_post t s t' s'"
  using assms
proof (induction t arbitrary: s)
  case Null
  then show ?case by simp
next
  case (Node k b l r)
  show ?case
  proof (cases "l = Null")
    case True
    then show ?thesis using Node.prems by (auto simp: unlink_post_def)
  next
    case False
    have inv: "avl_inv l" "avl_inv r" "b = int (height r) - int (height l)" "-1 \<le> b" "b \<le> 1"
      using Node.prems by auto
    from Node.IH(1)[OF inv(1) False, of s]
    obtain l' kq bq rq s1 where l': "eraseLeft l s = Some (l', Node kq bq Null rq, s1)"
      "inorder l = kq # inorder l'" "unlink_post l s l' s1" by blast
    show ?thesis
    proof (cases "flag_h s1")
      case False
      have "eraseLeft (Node k b l r) s = Some (Node k b l' r, Node kq bq Null rq, s1)"
        using \<open>l \<noteq> Null\<close> l'(1) False by simp
      moreover have "unlink_post (Node k b l r) s (Node k b l' r) s1"
        using l'(3) False inv by (auto simp: unlink_post_def)
      ultimately show ?thesis using l'(2) by auto
    next
      case True
      have hl: "height l = height l' + 1" "avl_inv l'" using l'(3) True by (auto simp: unlink_post_def)
      from balanceEraseLeft_ok[OF hl(2) inv(2) hl(1) inv(3,4,5) True, of k]
      obtain p' s' where p': "balanceEraseLeft (Node k b l' r) s1 = Some (p', s')"
        "avl_inv p'" "inorder p' = inorder l' @ k # inorder r"
        "flag_h s' \<longrightarrow> height p' = max (height l) (height r)"
        "\<not> flag_h s' \<longrightarrow> height p' = max (height l) (height r) + 1" by blast
      have "eraseLeft (Node k b l r) s = Some (p', Node kq bq Null rq, s')"
        using \<open>l \<noteq> Null\<close> l'(1) True p'(1) by (simp del: balanceEraseLeft.simps)
      moreover have "unlink_post (Node k b l r) s p' s'"
        using l'(3) p'(2,4,5) balanceEraseLeft_frame[OF p'(1)] by (auto simp: unlink_post_def)
      ultimately show ?thesis using l'(2) p'(3) by auto
    qed
  qed
qed

lemma eraseRight_ok:
  assumes "avl_inv t" "t \<noteq> Null"
  shows "\<exists>t' kq bq lq s'. eraseRight t s = Some (t', Node kq bq lq Null, s')
      \<and> inorder t = inorder t' @ [kq] \<and> unlink_post t s t' s'"
  using assms
proof (induction t arbitrary: s)
  case Null
  then show ?case by simp
next
  case (Node k b l r)
  show ?case
  proof (cases "r = Null")
    case True
    then show ?thesis using Node.prems by (auto simp: unlink_post_def)
  next
    case False
    have inv: "avl_inv l" "avl_inv r" "b = int (height r) - int (height l)" "-1 \<le> b" "b \<le> 1"
      using Node.prems by auto
    from Node.IH(2)[OF inv(2) False, of s]
    obtain r' kq bq lq s1 where r': "eraseRight r s = Some (r', Node kq bq lq Null, s1)"
      "inorder r = inorder r' @ [kq]" "unlink_post r s r' s1" by blast
    show ?thesis
    proof (cases "flag_h s1")
      case False
      have "eraseRight (Node k b l r) s = Some (Node k b l r', Node kq bq lq Null, s1)"
        using \<open>r \<noteq> Null\<close> r'(1) False by simp
      moreover have "unlink_post (Node k b l r) s (Node k b l r') s1"
        using r'(3) False inv by (auto simp: unlink_post_def)
      ultimately show ?thesis using r'(2) by auto
    next
      case True
      have hr: "height r = height r' + 1" "avl_inv r'" using r'(3) True by (auto simp: unlink_post_def)
      from balanceEraseRight_ok[OF inv(1) hr(2) hr(1) inv(3,4,5) True, of k]
      obtain p' s' where p': "balanceEraseRight (Node k b l r') s1 = Some (p', s')"
        "avl_inv p'" "inorder p' = inorder l @ k # inorder r'"
        "flag_h s' \<longrightarrow> height p' = max (height l) (height r)"
        "\<not> flag_h s' \<longrightarrow> height p' = max (height l) (height r) + 1" by blast
      have "eraseRight (Node k b l r) s = Some (p', Node kq bq lq Null, s')"
        using \<open>r \<noteq> Null\<close> r'(1) True p'(1) by (simp del: balanceEraseRight.simps)
      moreover have "unlink_post (Node k b l r) s p' s'"
        using r'(3) p'(2,4,5) balanceEraseRight_frame[OF p'(1)] by (auto simp: unlink_post_def)
      ultimately show ?thesis using r'(2) p'(3) by auto
    qed
  qed
qed

lemma length_inorder: "length (inorder t) = num_nodes t"
  by (induction t) auto

lemma deleteNode_Node:
  "deleteNode cfg (Node kq bq lq rq) s =
     Some (if DISABLE_FREED_LIST cfg then s\<lparr>deletes := deletes s + 1\<rparr>
           else s\<lparr>freed := Node kq bq (freed s) rq\<rparr>)"
  by simp

lemma erase_postI:
  assumes "avl_inv t'" "bst t'" "keys t' = keys t - {x}" "flag_r s' = (x \<in> keys t)"
    "x \<notin> keys t \<Longrightarrow> t' = t \<and> \<not> flag_h s' \<and> freed s' = freed s \<and> deletes s' = deletes s"
    "x \<in> keys t \<Longrightarrow> num_nodes t = num_nodes t' + 1 \<and> pool_push cfg s s'"
    "flag_h s' \<Longrightarrow> height t = height t' + 1"
    "\<not> flag_h s' \<Longrightarrow> height t' = height t"
    "root s' = root s \<and> count s' = count s \<and> news s' = news s \<and> flag_a s' = flag_a s"
  shows "erase_post cfg t x s t' s'"
  unfolding erase_post_def using assms by blast

lemma erase_post_keep_left:
  assumes post: "erase_post cfg l x s l' s1" and lt: "x < k"
    and inv: "avl_inv (Node k b l r)" and ord: "bst (Node k b l r)"
    and h: "\<not> flag_h s1"
  shows "erase_post cfg (Node k b l r) x s (Node k b l' r) s1"
proof (rule erase_postI)
  have xr: "x \<notin> keys r" "x \<noteq> k" using ord lt by auto
  have hl: "height l' = height l" "avl_inv l'" "bst l'" "keys l' = keys l - {x}"
    using post h by (auto simp: erase_post_def)
  show "avl_inv (Node k b l' r)" using inv hl by simp
  show "bst (Node k b l' r)" using ord hl by auto
  show "keys (Node k b l' r) = keys (Node k b l r) - {x}" using hl(4) xr by auto
  show "height (Node k b l' r) = height (Node k b l r)" using hl(1) by simp
  show "flag_r s1 = (x \<in> keys (Node k b l r))" using post xr by (simp add: erase_post_def)
  show "num_nodes (Node k b l r) = num_nodes (Node k b l' r) + 1 \<and> pool_push cfg s s1"
    if "x \<in> keys (Node k b l r)"
    using that post xr by (simp add: erase_post_def)
  show "Node k b l' r = Node k b l r \<and> \<not> flag_h s1 \<and> freed s1 = freed s \<and> deletes s1 = deletes s"
    if "x \<notin> keys (Node k b l r)"
    using that post xr by (simp add: erase_post_def)
  show "height (Node k b l r) = height (Node k b l' r) + 1" if "flag_h s1"
    using that h by simp
  show "root s1 = root s \<and> count s1 = count s \<and> news s1 = news s \<and> flag_a s1 = flag_a s"
    using post by (simp add: erase_post_def)
qed

lemma erase_post_keep_right:
  assumes post: "erase_post cfg r x s r' s1" and gt: "k < x"
    and inv: "avl_inv (Node k b l r)" and ord: "bst (Node k b l r)"
    and h: "\<not> flag_h s1"
  shows "erase_post cfg (Node k b l r) x s (Node k b l r') s1"
proof (rule erase_postI)
  have xl: "x \<notin> keys l" "x \<noteq> k" using ord gt by auto
  have hr: "height r' = height r" "avl_inv r'" "bst r'" "keys r' = keys r - {x}"
    using post h by (auto simp: erase_post_def)
  show "avl_inv (Node k b l r')" using inv hr by simp
  show "bst (Node k b l r')" using ord hr by auto
  show "keys (Node k b l r') = keys (Node k b l r) - {x}" using hr(4) xl by auto
  show "height (Node k b l r') = height (Node k b l r)" using hr(1) by simp
  show "flag_r s1 = (x \<in> keys (Node k b l r))" using post xl by (simp add: erase_post_def)
  show "num_nodes (Node k b l r) = num_nodes (Node k b l r') + 1 \<and> pool_push cfg s s1"
    if "x \<in> keys (Node k b l r)"
    using that post xl by (simp add: erase_post_def)
  show "Node k b l r' = Node k b l r \<and> \<not> flag_h s1 \<and> freed s1 = freed s \<and> deletes s1 = deletes s"
    if "x \<notin> keys (Node k b l r)"
    using that post xl by (simp add: erase_post_def)
  show "height (Node k b l r) = height (Node k b l r') + 1" if "flag_h s1"
    using that h by simp
  show "root s1 = root s \<and> count s1 = count s \<and> news s1 = news s \<and> flag_a s1 = flag_a s"
    using post by (simp add: erase_post_def)
qed

lemma erase_post_found:
  assumes t': "avl_inv t'" "inorder t' = inorder l @ inorder r"
    and h: "flag_h s1 \<longrightarrow> height (Node k b l r) = height t' + 1"
           "\<not> flag_h s1 \<longrightarrow> height t' = height (Node k b l r)"
    and fr: "freed s1 = freed s" "news s1 = news s" "deletes s1 = deletes s"
       "root s1 = root s" "count s1 = count s" "flag_a s1 = flag_a s"
    and ord: "bst (Node k b l r)"
  shows "\<exists>s2. deleteNode cfg (Node kq bq lq rq) s1 = Some s2
           \<and> erase_post cfg (Node k b l r) k s t' (s2\<lparr>flag_r := True\<rparr>)"
proof -
  have "sorted_wrt (<) (inorder l @ k # inorder r)" using ord by (simp add: bst_iff_sorted)
  then have "sorted_wrt (<) (inorder t')" and k: "k \<notin> set (inorder l)" "k \<notin> set (inorder r)"
    unfolding t'(2) by (auto simp: sorted_wrt_append)
  then have 1: "bst t'" by (simp add: bst_iff_sorted)
  have 2: "keys t' = keys (Node k b l r) - {k}" using k t'(2) by (auto simp: keys_def)
  have 3: "num_nodes (Node k b l r) = num_nodes t' + 1"
    using arg_cong[OF t'(2), of length] by (simp add: length_inorder)
  show ?thesis unfolding erase_post_def pool_push_def deleteNode_Node
    using t'(1) 1 2 3 h fr by auto
qed

lemma erase_post_left:
  assumes post: "erase_post cfg l x s l' s1" and lt: "x < k"
    and inv: "avl_inv (Node k b l r)" and ord: "bst (Node k b l r)"
    and h: "flag_h s1"
  shows "\<exists>p' s'. balanceEraseLeft (Node k b l' r) s1 = Some (p', s')
            \<and> erase_post cfg (Node k b l r) x s p' s'"
proof -
  have hl: "height l = height l' + 1" "avl_inv l'" "x \<in> keys l"
    using post h by (auto simp: erase_post_def)
  have inv': "avl_inv r" "b = int (height r) - int (height l)" "-1 \<le> b" "b \<le> 1"
    using inv by auto
  from balanceEraseLeft_ok[OF hl(2) inv'(1) hl(1) inv'(2,3,4) h, of k]
  obtain p' s' where p': "balanceEraseLeft (Node k b l' r) s1 = Some (p', s')"
    "avl_inv p'" "inorder p' = inorder l' @ k # inorder r"
    "flag_h s' \<longrightarrow> height p' = max (height l) (height r)"
    "\<not> flag_h s' \<longrightarrow> height p' = max (height l) (height r) + 1" by blast
  have xl: "keys l' = keys l - {x}" "bst l'" "num_nodes l = num_nodes l' + 1" "pool_push cfg s s1"
    "flag_r s1" "root s1 = root s" "count s1 = count s" "news s1 = news s" "flag_a s1 = flag_a s"
    using post hl(3) by (auto simp: erase_post_def)
  have xr: "x \<notin> keys r" "x \<noteq> k" using ord lt by auto
  have "bst (Node k b l' r)" using xl ord lt by auto
  then have 1: "bst p'" using p'(3) by (simp add: bst_iff_sorted)
  have 2: "keys p' = keys (Node k b l r) - {x}" using p'(3) xl(1) xr
    by (auto simp: keys_def)
  have 3: "num_nodes (Node k b l r) = num_nodes p' + 1"
    using arg_cong[OF p'(3), of length] xl(3) by (simp add: length_inorder)
  have 4: "pool_push cfg s s'" using xl(4) balanceEraseLeft_frame[OF p'(1)]
    by (simp add: pool_push_def)
  have 5: "x \<in> keys (Node k b l r)" using hl(3) by simp
  show ?thesis unfolding erase_post_def
    using p'(1,2,4,5) 1 2 3 4 5 xl(5-) balanceEraseLeft_frame[OF p'(1)] by auto
qed

lemma erase_post_right:
  assumes post: "erase_post cfg r x s r' s1" and gt: "k < x"
    and inv: "avl_inv (Node k b l r)" and ord: "bst (Node k b l r)"
    and h: "flag_h s1"
  shows "\<exists>p' s'. balanceEraseRight (Node k b l r') s1 = Some (p', s')
            \<and> erase_post cfg (Node k b l r) x s p' s'"
proof -
  have hr: "height r = height r' + 1" "avl_inv r'" "x \<in> keys r"
    using post h by (auto simp: erase_post_def)
  have inv': "avl_inv l" "b = int (height r) - int (height l)" "-1 \<le> b" "b \<le> 1"
    using inv by auto
  from balanceEraseRight_ok[OF inv'(1) hr(2) hr(1) inv'(2,3,4) h, of k]
  obtain p' s' where p': "balanceEraseRight (Node k b l r') s1 = Some (p', s')"
    "avl_inv p'" "inorder p' = inorder l @ k # inorder r'"
    "flag_h s' \<longrightarrow> height p' = max (height l) (height r)"
    "\<not> flag_h s' \<longrightarrow> height p' = max (height l) (height r) + 1" by blast
  have xr: "keys r' = keys r - {x}" "bst r'" "num_nodes r = num_nodes r' + 1" "pool_push cfg s s1"
    "flag_r s1" "root s1 = root s" "count s1 = count s" "news s1 = news s" "flag_a s1 = flag_a s"
    using post hr(3) by (auto simp: erase_post_def)
  have xl: "x \<notin> keys l" "x \<noteq> k" using ord gt by auto
  have "bst (Node k b l r')" using xr ord gt by auto
  then have 1: "bst p'" using p'(3) by (simp add: bst_iff_sorted)
  have 2: "keys p' = keys (Node k b l r) - {x}" using p'(3) xr(1) xl
    by (auto simp: keys_def)
  have 3: "num_nodes (Node k b l r) = num_nodes p' + 1"
    using arg_cong[OF p'(3), of length] xr(3) by (simp add: length_inorder)
  have 4: "pool_push cfg s s'" using xr(4) balanceEraseRight_frame[OF p'(1)]
    by (simp add: pool_push_def)
  have 5: "x \<in> keys (Node k b l r)" using hr(3) by simp
  show ?thesis unfolding erase_post_def
    using p'(1,2,4,5) 1 2 3 4 5 xr(5-) balanceEraseRight_frame[OF p'(1)] by auto
qed

lemma deleteNode_freed:
  assumes "deleteNode cfg (Node kq bq lq rq) s1 = Some s2" "\<not> DISABLE_FREED_LIST cfg"
  shows "freed (s2\<lparr>flag_r := True\<rparr>) = Node kq bq (freed s1) rq"
  using assms by auto

lemma avl_erase_rec_found:
  assumes inv0: "avl_inv (Node k b l r)" and ord0: "bst (Node k b l r)"
  shows "\<exists>t' s'. avl_erase_rec cfg (Node k b l r) k s = Some (t', s')
           \<and> erase_post cfg (Node k b l r) k s t' s'
           \<and> inorder t' = inorder l @ inorder r
           \<and> (l \<noteq> Null \<and> r \<noteq> Null \<and> \<not> DISABLE_FREED_LIST cfg \<longrightarrow>
                (\<exists>bq rq. freed s' = Node (unlinked_key cfg b l r) bq (freed s) rq))"
proof -
  have inv: "avl_inv l" "avl_inv r" "b = int (height r) - int (height l)" "-1 \<le> b" "b \<le> 1"
    using inv0 by auto
  consider (r0) "r = Null" | (l0) "r \<noteq> Null" "l = Null"
    | (pl) "r \<noteq> Null" "l \<noteq> Null" "prefer_left cfg b"
    | (pr) "r \<noteq> Null" "l \<noteq> Null" "\<not> prefer_left cfg b" by blast
  then show ?thesis
  proof cases
    case r0
    have "\<exists>s2. deleteNode cfg (Node k b l r) (s\<lparr>flag_h := True\<rparr>) = Some s2
         \<and> erase_post cfg (Node k b l r) k s l (s2\<lparr>flag_r := True\<rparr>)"
      using r0 inv by (intro erase_post_found[OF _ _ _ _ _ _ _ _ _ _ ord0]) auto
    then show ?thesis using r0 by (auto simp del: deleteNode.simps)
  next
    case l0
    have "\<exists>s2. deleteNode cfg (Node k b l r) (s\<lparr>flag_h := True\<rparr>) = Some s2
         \<and> erase_post cfg (Node k b l r) k s r (s2\<lparr>flag_r := True\<rparr>)"
      using l0 inv by (intro erase_post_found[OF _ _ _ _ _ _ _ _ _ _ ord0]) auto
    then show ?thesis using l0 by (auto simp del: deleteNode.simps)
  next
    case pl
    from eraseRight_ok[OF inv(1) pl(2), of s]
    obtain l' kq bq lq s1 where u: "eraseRight l s = Some (l', Node kq bq lq Null, s1)"
      "inorder l = inorder l' @ [kq]" "unlink_post l s l' s1" by blast
    have "\<exists>p' s1'. (if flag_h s1 then
               do { (p, s2) \<leftarrow> balanceEraseLeft (Node kq b l' r) s1; Some (p, Node kq bq lq Null, s2) }
             else Some (Node kq b l' r, Node kq bq lq Null, s1)) = Some (p', Node kq bq lq Null, s1')
         \<and> avl_inv p' \<and> inorder p' = inorder l @ inorder r
         \<and> (flag_h s1' \<longrightarrow> height (Node k b l r) = height p' + 1)
         \<and> (\<not> flag_h s1' \<longrightarrow> height p' = height (Node k b l r))
         \<and> freed s1' = freed s \<and> news s1' = news s \<and> deletes s1' = deletes s
         \<and> root s1' = root s \<and> count s1' = count s \<and> flag_a s1' = flag_a s"
    proof (cases "flag_h s1")
      case False
      then show ?thesis using u inv by (auto simp: unlink_post_def)
    next
      case True
      have hl: "height l = height l' + 1" "avl_inv l'" using u(3) True by (auto simp: unlink_post_def)
      from balanceEraseLeft_ok[OF hl(2) inv(2) hl(1) inv(3,4,5) True, of kq]
      obtain p' s' where p': "balanceEraseLeft (Node kq b l' r) s1 = Some (p', s')"
        "avl_inv p'" "inorder p' = inorder l' @ kq # inorder r"
        "flag_h s' \<longrightarrow> height p' = max (height l) (height r)"
        "\<not> flag_h s' \<longrightarrow> height p' = max (height l) (height r) + 1" by blast
      show ?thesis using True p' u(2,3) balanceEraseLeft_frame[OF p'(1)]
        by (auto simp del: balanceEraseLeft.simps simp: unlink_post_def)
    qed
    then obtain p' s1' where p': "(if flag_h s1 then
               do { (p, s2) \<leftarrow> balanceEraseLeft (Node kq b l' r) s1; Some (p, Node kq bq lq Null, s2) }
             else Some (Node kq b l' r, Node kq bq lq Null, s1)) = Some (p', Node kq bq lq Null, s1')"
         "avl_inv p'" "inorder p' = inorder l @ inorder r"
         "flag_h s1' \<longrightarrow> height (Node k b l r) = height p' + 1"
         "\<not> flag_h s1' \<longrightarrow> height p' = height (Node k b l r)"
         "freed s1' = freed s" "news s1' = news s" "deletes s1' = deletes s"
         "root s1' = root s" "count s1' = count s" "flag_a s1' = flag_a s" by blast
    from erase_post_found[OF p'(2-11) ord0, of cfg kq bq lq Null]
    obtain s2 where s2: "deleteNode cfg (Node kq bq lq Null) s1' = Some s2"
      "erase_post cfg (Node k b l r) k s p' (s2\<lparr>flag_r := True\<rparr>)" by blast
    have "avl_erase_rec cfg (Node k b l r) k s = Some (p', s2\<lparr>flag_r := True\<rparr>)"
      using pl u(1) p'(1) s2(1)
      by (auto simp del: balanceEraseLeft.simps balanceEraseRight.simps deleteNode.simps
            split: if_splits Option.bind_splits)
    moreover have "unlinked_key cfg b l r = kq" using pl(3) u(2) by (simp add: unlinked_key_def)
    moreover have "\<not> DISABLE_FREED_LIST cfg \<Longrightarrow> freed (s2\<lparr>flag_r := True\<rparr>) = Node kq bq (freed s) Null"
      using deleteNode_freed[OF s2(1)] p'(6) by simp
    ultimately show ?thesis using s2(2) p'(3) by blast
  next
    case pr
    from eraseLeft_ok[OF inv(2) pr(1), of s]
    obtain r' kq bq rq s1 where u: "eraseLeft r s = Some (r', Node kq bq Null rq, s1)"
      "inorder r = kq # inorder r'" "unlink_post r s r' s1" by blast
    have "\<exists>p' s1'. (if flag_h s1 then
               do { (p, s2) \<leftarrow> balanceEraseRight (Node kq b l r') s1; Some (p, Node kq bq Null rq, s2) }
             else Some (Node kq b l r', Node kq bq Null rq, s1)) = Some (p', Node kq bq Null rq, s1')
         \<and> avl_inv p' \<and> inorder p' = inorder l @ inorder r
         \<and> (flag_h s1' \<longrightarrow> height (Node k b l r) = height p' + 1)
         \<and> (\<not> flag_h s1' \<longrightarrow> height p' = height (Node k b l r))
         \<and> freed s1' = freed s \<and> news s1' = news s \<and> deletes s1' = deletes s
         \<and> root s1' = root s \<and> count s1' = count s \<and> flag_a s1' = flag_a s"
    proof (cases "flag_h s1")
      case False
      then show ?thesis using u inv by (auto simp: unlink_post_def)
    next
      case True
      have hr: "height r = height r' + 1" "avl_inv r'" using u(3) True by (auto simp: unlink_post_def)
      from balanceEraseRight_ok[OF inv(1) hr(2) hr(1) inv(3,4,5) True, of kq]
      obtain p' s' where p': "balanceEraseRight (Node kq b l r') s1 = Some (p', s')"
        "avl_inv p'" "inorder p' = inorder l @ kq # inorder r'"
        "flag_h s' \<longrightarrow> height p' = max (height l) (height r)"
        "\<not> flag_h s' \<longrightarrow> height p' = max (height l) (height r) + 1" by blast
      show ?thesis using True p' u(2,3) balanceEraseRight_frame[OF p'(1)]
        by (auto simp del: balanceEraseRight.simps simp: unlink_post_def)
    qed
    then obtain p' s1' where p': "(if flag_h s1 then
               do { (p, s2) \<leftarrow> balanceEraseRight (Node kq b l r') s1; Some (p, Node kq bq Null rq, s2) }
             else Some (Node kq b l r', Node kq bq Null rq, s1)) = Some (p', Node kq bq Null rq, s1')"
         "avl_inv p'" "inorder p' = inorder l @ inorder r"
         "flag_h s1' \<longrightarrow> height (Node k b l r) = height p' + 1"
         "\<not> flag_h s1' \<longrightarrow> height p' = height (Node k b l r)"
         "freed s1' = freed s" "news s1' = news s" "deletes s1' = deletes s"
         "root s1' = root s" "count s1' = count s" "flag_a s1' = flag_a s" by blast
    from erase_post_found[OF p'(2-11) ord0, of cfg kq bq Null rq]
    obtain s2 where s2: "deleteNode cfg (Node kq bq Null rq) s1' = Some s2"
      "erase_post cfg (Node k b l r) k s p' (s2\<lparr>flag_r := True\<rparr>)" by blast
    have "avl_erase_rec cfg (Node k b l r) k s = Some (p', s2\<lparr>flag_r := True\<rparr>)"
      using pr u(1) p'(1) s2(1)
      by (auto simp del: balanceEraseLeft.simps balanceEraseRight.simps deleteNode.simps
            split: if_splits Option.bind_splits)
    moreover have "unlinked_key cfg b l r = kq" using pr(3) u(2) by (simp add: unlinked_key_def)
    moreover have "\<not> DISABLE_FREED_LIST cfg \<Longrightarrow> freed (s2\<lparr>flag_r := True\<rparr>) = Node kq bq (freed s) rq"
      using deleteNode_freed[OF s2(1)] p'(6) by simp
    ultimately show ?thesis using s2(2) p'(3) by blast
  qed
qed

lemma avl_erase_rec_ok:
  assumes "avl_inv t" "bst t" "t \<noteq> Null"
  shows "\<exists>t' s'. avl_erase_rec cfg t x s = Some (t', s') \<and> erase_post cfg t x s t' s'"
  using assms
proof (induction t arbitrary: s)
  case Null
  then show ?case by simp
next
  case (Node k b l r)
  have inv: "avl_inv l" "avl_inv r" "b = int (height r) - int (height l)" "-1 \<le> b" "b \<le> 1"
    and ord: "bst l" "bst r" "\<forall>y\<in>keys l. y < k" "\<forall>y\<in>keys r. k < y"
    using Node.prems by auto
  consider (lt) "x < k" | (gt) "k < x" | (eq) "x = k" by (metis less_linear)
  then show ?case
  proof cases
    case lt
    show ?thesis
    proof (cases "l = Null")
      case True
      have "x \<notin> keys (Node k b l r)" using True lt ord by auto
      then have "erase_post cfg (Node k b l r) x s (Node k b l r) (s\<lparr>flag_h := False, flag_r := False\<rparr>)"
        using Node.prems by (intro erase_postI) simp_all
      then show ?thesis using lt True by simp
    next
      case False
      from Node.IH(1)[OF inv(1) ord(1) False, of s]
      obtain l' s1 where sub: "avl_erase_rec cfg l x s = Some (l', s1)"
        and post: "erase_post cfg l x s l' s1" by blast
      show ?thesis
      proof (cases "flag_h s1")
        case False
        have "avl_erase_rec cfg (Node k b l r) x s = Some (Node k b l' r, s1)"
          using lt sub False \<open>l \<noteq> Null\<close> by simp
        then show ?thesis using erase_post_keep_left[OF post lt Node.prems(1,2) False] by blast
      next
        case True
        from erase_post_left[OF post lt Node.prems(1,2) True]
        obtain p' s' where p': "balanceEraseLeft (Node k b l' r) s1 = Some (p', s')"
          "erase_post cfg (Node k b l r) x s p' s'" by blast
        have "avl_erase_rec cfg (Node k b l r) x s = Some (p', s')"
          using lt sub True p'(1) \<open>l \<noteq> Null\<close> by (simp del: balanceEraseLeft.simps)
        then show ?thesis using p'(2) by blast
      qed
    qed
  next
    case gt
    then have nlt: "\<not> x < k" by auto
    show ?thesis
    proof (cases "r = Null")
      case True
      have "x \<notin> keys (Node k b l r)" using True gt ord by auto
      then have "erase_post cfg (Node k b l r) x s (Node k b l r) (s\<lparr>flag_h := False, flag_r := False\<rparr>)"
        using Node.prems by (intro erase_postI) simp_all
      then show ?thesis using gt nlt True by simp
    next
      case False
      from Node.IH(2)[OF inv(2) ord(2) False, of s]
      obtain r' s1 where sub: "avl_erase_rec cfg r x s = Some (r', s1)"
        and post: "erase_post cfg r x s r' s1" by blast
      show ?thesis
      proof (cases "flag_h s1")
        case False
        have "avl_erase_rec cfg (Node k b l r) x s = Some (Node k b l r', s1)"
          using gt nlt sub False \<open>r \<noteq> Null\<close> by simp
        then show ?thesis using erase_post_keep_right[OF post gt Node.prems(1,2) False] by blast
      next
        case True
        from erase_post_right[OF post gt Node.prems(1,2) True]
        obtain p' s' where p': "balanceEraseRight (Node k b l r') s1 = Some (p', s')"
          "erase_post cfg (Node k b l r) x s p' s'" by blast
        have "avl_erase_rec cfg (Node k b l r) x s = Some (p', s')"
          using gt nlt sub True p'(1) \<open>r \<noteq> Null\<close> by (simp del: balanceEraseRight.simps)
        then show ?thesis using p'(2) by blast
      qed
    qed
  next
    case eq
    from avl_erase_rec_found[OF Node.prems(1,2), of cfg s]
    show ?thesis unfolding eq by blast
  qed
qed

lemma bst_card: "bst t \<Longrightarrow> num_nodes t = card (keys t)"
  by (simp add: bst_iff_sorted keys_def strict_sorted_iff distinct_card length_inorder[symmetric])

lemma keys_empty_iff [simp]: "keys t = {} \<longleftrightarrow> t = Null"
  by (cases t) auto

lemma finite_keys [simp]: "finite (keys t)"
  by (simp add: keys_def)

lemma insert_postD:
  assumes "insert_post t x s t' s'"
  shows "avl_inv t'" "t' \<noteq> Null" "keys t' = insert x (keys t)" "bst t'"
     "flag_a s' = (x \<notin> keys t)"
     "x \<in> keys t \<Longrightarrow> t' = t \<and> \<not> flag_h s' \<and> ins_rots s' = ins_rots s"
     "flag_h s' \<Longrightarrow> height t' = height t + 1"
     "\<not> flag_h s' \<Longrightarrow> height t' = height t"
     "ins_rots s' \<noteq> ins_rots s \<Longrightarrow> \<not> flag_h s'"
     "root s' = root s" "count s' = count s" "deletes s' = deletes s"
  using assms unfolding insert_post_def by blast+

lemma erase_postD:
  assumes "erase_post cfg t x s t' s'"
  shows "avl_inv t'" "bst t'" "keys t' = keys t - {x}" "flag_r s' = (x \<in> keys t)"
    "x \<notin> keys t \<Longrightarrow> t' = t \<and> \<not> flag_h s' \<and> freed s' = freed s \<and> deletes s' = deletes s"
    "x \<in> keys t \<Longrightarrow> num_nodes t = num_nodes t' + 1 \<and> pool_push cfg s s'"
    "root s' = root s" "count s' = count s" "news s' = news s" "flag_a s' = flag_a s"
  using assms unfolding erase_post_def by blast+

lemma avl_insert_ok:
  assumes "avl_ok s"
  shows "\<exists>s'. avl_insert cfg x s = Some (x \<notin> keys (root s), s') \<and> avl_ok s'
           \<and> keys (root s') = insert x (keys (root s))
           \<and> (x \<in> keys (root s) \<longrightarrow> root s' = root s \<and> count s' = count s)
           \<and> deletes s' = deletes s"
proof (cases "root s = Null")
  case True
  then show ?thesis using assms
    by (auto simp: avl_insert_def avl_ok_def newNode_def Let_def split: node.splits if_splits)
next
  case False
  let ?s0 = "s\<lparr>flag_h := False, flag_a := True\<rparr>"
  have inv: "avl_inv (root s)" "bst (root s)" "count s = of_nat (num_nodes (root s))"
    using assms by (auto simp: avl_ok_def)
  from avl_insert_rec_ok[OF inv(1,2) False, of cfg x ?s0]
  obtain t' s1 where r: "avl_insert_rec cfg (root s) x ?s0 = Some (t', s1)"
    and post: "insert_post (root s) x ?s0 t' s1" by blast
  note p = insert_postD[OF post]
  let ?s2 = "s1\<lparr>root := t'\<rparr>"
  let ?s3 = "if flag_a ?s2 then ?s2\<lparr>count := count ?s2 + 1\<rparr> else ?s2"
  have res: "avl_insert cfg x s = Some (x \<notin> keys (root s), ?s3)"
    using False r p(5) by (simp add: avl_insert_def Let_def)
  have n: "num_nodes t' = (if x \<in> keys (root s) then num_nodes (root s) else num_nodes (root s) + 1)"
    using p(3,4) inv(2) by (simp add: bst_card insert_absorb)
  have cnt: "count ?s3 = of_nat (num_nodes t')"
    using n p(5,11) inv(3) by simp
  have "avl_ok ?s3" using p(1,4) cnt by (simp add: avl_ok_def)
  moreover have "keys (root ?s3) = insert x (keys (root s))" using p(3) by simp
  moreover have "x \<in> keys (root s) \<Longrightarrow> root ?s3 = root s \<and> count ?s3 = count s"
    using p(5,6,11) by simp
  moreover have "deletes ?s3 = deletes s" using p(12) by simp
  ultimately show ?thesis using res by blast
qed

lemma avl_erase_ok:
  assumes "avl_ok s"
  shows "\<exists>s'. avl_erase cfg x s = Some (x \<in> keys (root s), s') \<and> avl_ok s'
           \<and> keys (root s') = keys (root s) - {x}
           \<and> (x \<notin> keys (root s) \<longrightarrow>
                 root s' = root s \<and> count s' = count s \<and> freed s' = freed s \<and> deletes s' = deletes s)
           \<and> (x \<in> keys (root s) \<longrightarrow>
                 num_nodes (root s) = num_nodes (root s') + 1 \<and> count s' = count s - 1
                 \<and> pool_push cfg s s')"
proof (cases "root s = Null")
  case True
  then show ?thesis using assms
    by (auto simp: avl_erase_def avl_ok_def Let_def)
next
  case False
  let ?s0 = "s\<lparr>flag_h := False, flag_r := False\<rparr>"
  have inv: "avl_inv (root s)" "bst (root s)" "count s = of_nat (num_nodes (root s))"
    using assms by (auto simp: avl_ok_def)
  from avl_erase_rec_ok[OF inv(1,2) False, of cfg x ?s0]
  obtain t' s1 where r: "avl_erase_rec cfg (root s) x ?s0 = Some (t', s1)"
    and post: "erase_post cfg (root s) x ?s0 t' s1" by blast
  note p = erase_postD[OF post]
  let ?s2 = "s1\<lparr>root := t'\<rparr>"
  let ?s3 = "if flag_r ?s2 then ?s2\<lparr>count := count ?s2 - 1\<rparr> else ?s2"
  have res: "avl_erase cfg x s = Some (x \<in> keys (root s), ?s3)"
    using False r p(4) by (simp add: avl_erase_def Let_def)
  have cnt: "count ?s3 = of_nat (num_nodes t')"
    using p(4,5,6,8) inv(3) by (cases "x \<in> keys (root s)") simp_all
  have "avl_ok ?s3" using p(1,2) cnt by (simp add: avl_ok_def)
  moreover have "keys (root ?s3) = keys (root s) - {x}" using p(3) by simp
  moreover have "x \<notin> keys (root s) \<Longrightarrow>
      root ?s3 = root s \<and> count ?s3 = count s \<and> freed ?s3 = freed s \<and> deletes ?s3 = deletes s"
    using p(4,5,8) by simp
  moreover have "x \<in> keys (root s) \<Longrightarrow>
      num_nodes (root s) = num_nodes (root ?s3) + 1 \<and> count ?s3 = count s - 1 \<and> pool_push cfg s ?s3"
    using p(4,6,8) by (auto simp: pool_push_def split: if_splits)
  ultimately show ?thesis using res by blast
qed

lemma avl_ok_init: "avl_ok avlTree_init"
  by (simp add: avl_ok_def avlTree_init_def)

lemma avl_insert_all_ok:
  "avl_ok s \<Longrightarrow> \<exists>s'. avl_insert_all cfg xs s = Some s' \<and> avl_ok s'
      \<and> keys (root s') = keys (root s) \<union> set xs"
proof (induction xs arbitrary: s)
  case Nil
  then show ?case by simp
next
  case (Cons x xs)
  from avl_insert_ok[OF Cons.prems, of cfg x]
  obtain s1 where s1: "avl_insert cfg x s = Some (x \<notin> keys (root s), s1)" "avl_ok s1"
    "keys (root s1) = insert x (keys (root s))" by blast
  from Cons.IH[OF s1(2)] obtain s' where "avl_insert_all cfg xs s1 = Some s'" "avl_ok s'"
    "keys (root s') = keys (root s1) \<union> set xs" by blast
  then show ?case using s1 by auto
qed

lemma avl_erase_all_ok:
  "avl_ok s \<Longrightarrow> \<exists>s'. avl_erase_all cfg xs s = Some s' \<and> avl_ok s'
      \<and> keys (root s') = keys (root s) - set xs"
proof (induction xs arbitrary: s)
  case Nil
  then show ?case by simp
next
  case (Cons x xs)
  from avl_erase_ok[OF Cons.prems, of cfg x]
  obtain s1 where s1: "avl_erase cfg x s = Some (x \<in> keys (root s), s1)" "avl_ok s1"
    "keys (root s1) = keys (root s) - {x}" by blast
  from Cons.IH[OF s1(2)] obtain s' where "avl_erase_all cfg xs s1 = Some s'" "avl_ok s'"
    "keys (root s') = keys (root s1) - set xs" by blast
  then show ?case using s1 by auto
qed

lemma avl_ok_size: "avl_ok s \<Longrightarrow> avl_size s = of_nat (card (keys (root s)))"
  by (simp add: avl_ok_def avl_size_def bst_card)

text \<open>
  Claim C3.  For every list \<open>xs\<close> of unique keys and every list \<open>ys\<close> that holds
  the same keys in any order: inserting the keys of \<open>xs\<close> one after the other into an
  empty AVL tree and then erasing the keys of \<open>ys\<close> one after the other runs without a
  fault; after the insertions \<open>size()\<close> is the number of keys, and after the erasures
  \<open>size()\<close> is 0, \<open>empty()\<close> is true and the root is null.
\<close>

theorem avl_insert_all_erase_all_drains:
  assumes "distinct xs" "distinct ys" "set ys = set xs"
  shows "\<exists>s1 s2. avl_insert_all cfg xs avlTree_init = Some s1
          \<and> avl_size s1 = of_nat (length xs)
          \<and> avl_erase_all cfg ys s1 = Some s2
          \<and> avl_size s2 = 0 \<and> avl_empty s2 \<and> root s2 = Null"
proof -
  from avl_insert_all_ok[OF avl_ok_init, of cfg xs]
  obtain s1 where s1: "avl_insert_all cfg xs avlTree_init = Some s1" "avl_ok s1"
    "keys (root s1) = keys (root (avlTree_init :: 'a avlTree)) \<union> set xs" by blast
  from avl_erase_all_ok[OF s1(2), of cfg ys]
  obtain s2 where s2: "avl_erase_all cfg ys s1 = Some s2" "avl_ok s2"
    "keys (root s2) = keys (root s1) - set ys" by blast
  have k1: "keys (root s1) = set xs" using s1(3) by (simp add: avlTree_init_def)
  then have "avl_size s1 = of_nat (length xs)"
    using avl_ok_size[OF s1(2)] assms(1) by (simp add: distinct_card)
  moreover have "keys (root s2) = {}" using s2(3) k1 assms(3) by simp
  then have "root s2 = Null" "avl_size s2 = 0" using avl_ok_size[OF s2(2)] by simp_all
  ultimately show ?thesis using s1(1) s2(1) by (simp add: avl_empty_def avl_size_def)
qed

text \<open>The hypotheses of C3 hold for the keys 2, 1, 3 erased in the order 3, 1, 2.\<close>

theorem avl_insert_all_erase_all_drains_witness:
  "distinct [2, 1, 3 :: int] \<and> distinct [3, 1, 2 :: int] \<and> set [3, 1, 2 :: int] = set [2, 1, 3]
   \<and> (\<exists>s1 s2. avl_insert_all default_build [2, 1, 3 :: int] avlTree_init = Some s1
          \<and> avl_size s1 = of_nat (length [2, 1, 3 :: int])
          \<and> avl_erase_all default_build [3, 1, 2] s1 = Some s2
          \<and> avl_size s2 = 0 \<and> avl_empty s2 \<and> root s2 = Null)"
proof -
  have h: "distinct [2, 1, 3 :: int]" "distinct [3, 1, 2 :: int]"
    "set [3, 1, 2 :: int] = set [2, 1, 3]" by auto
  show ?thesis using h avl_insert_all_erase_all_drains[OF h, of default_build] by blast
qed

lemma inorder_Nil_iff [simp]: "inorder t = [] \<longleftrightarrow> t = Null"
  by (cases t) auto

lemma hd_inorder: "t \<noteq> Null \<Longrightarrow> hd (inorder t) = leftmost t"
  by (induction t) (auto simp: hd_append)

lemma last_inorder: "t \<noteq> Null \<Longrightarrow> last (inorder t) = rightmost t"
  by (induction t) auto

text \<open>
  Claim C5, as amended.  With \<open>ENABLE_PREFERRED_TEST\<close> and the freed list, erasing the
  key of a node with two children unlinks exactly one node and prepends it to the freed
  list; the tree keeps the keys of both subtrees in order.  The unlinked node is the
  leftmost node of the right subtree (the in-order successor) if the balance factor of
  the node is +1, and the rightmost node of the left subtree (the in-order predecessor) if
  it is -1.  If the balance factor is 0 the unlinked node is the rightmost node of the left
  subtree: the tie is broken toward the left subtree, unless \<open>INVERT_PREFERRED_TEST\<close>
  is defined as well, which breaks it toward the right subtree.
\<close>

theorem avl_erase_preferred_replacement:
  assumes "avl_inv (Node k b l r)" "bst (Node k b l r)" "l \<noteq> Null" "r \<noteq> Null"
    and "ENABLE_PREFERRED_TEST cfg" "\<not> DISABLE_FREED_LIST cfg"
  shows "\<exists>t' s' bq rq. avl_erase_rec cfg (Node k b l r) k s = Some (t', s')
          \<and> inorder t' = inorder l @ inorder r
          \<and> freed s' = Node (if b = 1 \<or> (b = 0 \<and> INVERT_PREFERRED_TEST cfg)
                              then leftmost r else rightmost l) bq (freed s) rq"
proof -
  from avl_erase_rec_found[OF assms(1,2), of cfg s] assms(3,4,6)
  obtain t' s' bq rq where r: "avl_erase_rec cfg (Node k b l r) k s = Some (t', s')"
    "inorder t' = inorder l @ inorder r"
    "freed s' = Node (unlinked_key cfg b l r) bq (freed s) rq" by blast
  have b: "b = 1 \<or> b = 0 \<or> b = -1" using assms(1) by auto
  have "unlinked_key cfg b l r = (if b = 1 \<or> (b = 0 \<and> INVERT_PREFERRED_TEST cfg)
                              then leftmost r else rightmost l)"
    using b assms(3,4,5) by (auto simp: unlinked_key_def prefer_left_def hd_inorder last_inorder)
  then show ?thesis using r by auto
qed

text \<open>
  Claim C5 as stated fails: in the tree with root 2 (balance factor 0), left child 1 and
  right child 3, erasing 2 with \<open>ENABLE_PREFERRED_TEST\<close> replaces the root by 1, the
  rightmost node of the left subtree, and not by 3, the leftmost node of the right subtree.
\<close>

theorem avl_erase_tie_counterexample:
  "map_option fst (avl_erase_rec
      \<lparr>ENABLE_PREFERRED_TEST = True, INVERT_PREFERRED_TEST = False, DISABLE_FREED_LIST = False\<rparr>
      (Node (2::int) 0 (Node 1 0 Null Null) (Node 3 0 Null Null)) 2 avlTree_init)
   = Some (Node 1 1 Null (Node 3 0 Null Null))
   \<and> leftmost (Node (3::int) (0::int) Null Null) = 3"
  by (simp add: prefer_left_def avlTree_init_def)

text \<open>The hypotheses of C5 hold for that tree.\<close>

theorem avl_erase_preferred_replacement_witness:
  "avl_inv (Node (2::int) 0 (Node 1 0 Null Null) (Node 3 0 Null Null))
   \<and> bst (Node (2::int) (0::int) (Node 1 0 Null Null) (Node 3 0 Null Null))
   \<and> (\<exists>t' s' bq rq. avl_erase_rec
      \<lparr>ENABLE_PREFERRED_TEST = True, INVERT_PREFERRED_TEST = False, DISABLE_FREED_LIST = False\<rparr>
      (Node (2::int) 0 (Node 1 0 Null Null) (Node 3 0 Null Null)) 2 avlTree_init = Some (t', s')
          \<and> inorder t' = [1, 3]
          \<and> freed s' = Node 1 bq Null rq)"
proof -
  let ?cfg = "\<lparr>ENABLE_PREFERRED_TEST = True, INVERT_PREFERRED_TEST = False, DISABLE_FREED_LIST = False\<rparr>"
  have h: "avl_inv (Node (2::int) 0 (Node 1 0 Null Null) (Node 3 0 Null Null))"
    "bst (Node (2::int) (0::int) (Node 1 0 Null Null) (Node 3 0 Null Null))"
    "Node (1::int) (0::int) Null Null \<noteq> Null" "Node (3::int) (0::int) Null Null \<noteq> Null"
    "ENABLE_PREFERRED_TEST ?cfg" "\<not> DISABLE_FREED_LIST ?cfg"
    by simp_all
  show ?thesis
    using h(1,2) avl_erase_preferred_replacement[OF h, of avlTree_init]
    by (simp add: avlTree_init_def)
qed

text \<open>
  Claim C7.  Let the recursive insert function return for a subtree that satisfies the AVL
  invariants, and let it have performed a rotation (one of the counters \<open>lli\<close>,
  \<open>lri\<close>, \<open>rli\<close>, \<open>rri\<close> has changed).  Then the height-changed flag \<open>h\<close> is
  clear, the subtree that is returned satisfies the AVL invariant and has the height that
  the subtree had before the insertion, and every node that has the subtree as a child on
  the search path is returned with its key, its balance factor and its other child
  unchanged, and with the flag and the counters as they are.
\<close>

theorem avl_insert_rotation_halts:
  assumes "avl_inv t" "bst t" "t \<noteq> Null"
    and "avl_insert_rec cfg t x s = Some (t', s')"
    and "ins_rots s' \<noteq> ins_rots s"
  shows "\<not> flag_h s' \<and> avl_inv t' \<and> height t' = height t
     \<and> (\<forall>k b r. x < k \<longrightarrow> avl_insert_rec cfg (Node k b t r) x s = Some (Node k b t' r, s'))
     \<and> (\<forall>k b l. k < x \<longrightarrow> avl_insert_rec cfg (Node k b l t) x s = Some (Node k b l t', s'))"
proof -
  from avl_insert_rec_ok[OF assms(1,2,3), of cfg x s] assms(4)
  have post: "insert_post t x s t' s'" by auto
  note p = insert_postD[OF post]
  have h: "\<not> flag_h s'" using p(9) assms(5) by simp
  then have "height t' = height t" using p(8) by simp
  moreover have "avl_insert_rec cfg (Node k b t r) x s = Some (Node k b t' r, s')" if "x < k" for k b r
    using that assms(3,4) h by simp
  moreover have "avl_insert_rec cfg (Node k b l t) x s = Some (Node k b l t', s')" if "k < x" for k b l
    using that assms(3,4) h less_asym[OF that] by auto
  ultimately show ?thesis using h p(1) by blast
qed

text \<open>
  The hypotheses of C7 hold for the insertion of 1 into the subtree with root 3 (balance
  factor -1) and left child 2, which performs a single LL rotation.
\<close>

theorem avl_insert_rotation_halts_witness:
  "avl_inv (Node (3::int) (-1) (Node 2 0 Null Null) Null)
   \<and> bst (Node (3::int) (-1::int) (Node 2 0 Null Null) Null)
   \<and> avl_insert_rec default_build (Node (3::int) (-1) (Node 2 0 Null Null) Null) 1 avlTree_init
       = Some (Node 2 0 (Node 1 0 Null Null) (Node 3 0 Null Null),
               avlTree_init\<lparr>flag_h := False, flag_a := True, lli := 1, news := 1\<rparr>)
   \<and> (1::int) < 5
   \<and> avl_insert_rec default_build
         (Node 5 1 (Node (3::int) (-1) (Node 2 0 Null Null) Null) (Node 6 1 Null (Node 7 0 Null Null)))
         1 avlTree_init
       = Some (Node 5 1 (Node 2 0 (Node 1 0 Null Null) (Node 3 0 Null Null))
                 (Node 6 1 Null (Node 7 0 Null Null)),
               avlTree_init\<lparr>flag_h := False, flag_a := True, lli := 1, news := 1\<rparr>)"
proof -
  let ?t = "Node (3::int) (-1::int) (Node 2 0 Null Null) Null"
  let ?s' = "avlTree_init\<lparr>flag_h := False, flag_a := True, lli := 1, news := 1\<rparr> :: int avlTree"
  have h: "avl_inv ?t" "bst ?t" "?t \<noteq> Null"
    "avl_insert_rec default_build ?t 1 avlTree_init
       = Some (Node 2 0 (Node 1 0 Null Null) (Node 3 0 Null Null), ?s')"
    "ins_rots ?s' \<noteq> ins_rots (avlTree_init :: int avlTree)"
    by (simp_all add: default_build_def avlTree_init_def newNode_def ins_rots_def)
  from avl_insert_rotation_halts[OF h] have
    "\<forall>k b r. 1 < k \<longrightarrow> avl_insert_rec default_build (Node k b ?t r) 1 avlTree_init
        = Some (Node k b (Node 2 0 (Node 1 0 Null Null) (Node 3 0 Null Null)) r, ?s')" by blast
  then show ?thesis using h(1,2,4) by simp
qed

lemma getKeys_rec_eq:
  "t \<noteq> Null \<Longrightarrow> getKeys_rec t v i =
     (if i + num_nodes t \<le> length v
      then Some (take i v @ inorder t @ drop (i + num_nodes t) v, i + num_nodes t)
      else None)"
proof (induction t arbitrary: v i)
  case Null
  then show ?case by simp
next
  case (Node k b l r)
  have upd: "take j w @ xs @ drop (j + length xs) w = w'
      \<Longrightarrow> j + length xs < length w
      \<Longrightarrow> w'[j + length xs := k] = take j w @ (xs @ [k]) @ drop (j + length xs + 1) w"
    for j w w' and xs :: "'a list"
    by (auto simp: list_update_append upd_conv_take_nth_drop Cons_nth_drop_Suc)
  show ?case
  proof (cases "l = Null")
    case lN: True
    show ?thesis
    proof (cases "r = Null")
      case True
      then show ?thesis using lN
        by (auto simp: upd_conv_take_nth_drop)
    next
      case False
      show ?thesis using lN False Node.IH(2)[OF False]
        by (auto simp: upd_conv_take_nth_drop min_def take_Suc_conv_app_nth ac_simps)
    qed
  next
    case lN: False
    note IHl = Node.IH(1)[OF lN, of v i]
    show ?thesis
    proof (cases "i + num_nodes l < length v")
      case False
      then show ?thesis using lN IHl by (auto simp: length_inorder split: if_splits)
    next
      case True
      let ?v1 = "take i v @ inorder l @ drop (i + num_nodes l) v"
      have l1: "getKeys_rec l v i = Some (?v1, i + num_nodes l)" using IHl True by simp
      have len: "length ?v1 = length v" using True by (simp add: length_inorder)
      have v2: "?v1[i + num_nodes l := k]
            = take i v @ (inorder l @ [k]) @ drop (i + num_nodes l + 1) v"
        using upd[of i v "inorder l" ?v1] True by (simp add: length_inorder)
      show ?thesis
      proof (cases "r = Null")
        case True
        then show ?thesis using lN l1 len v2 \<open>i + num_nodes l < length v\<close>
          by (simp add: length_inorder)
      next
        case False
        let ?v2 = "take i v @ (inorder l @ [k]) @ drop (i + num_nodes l + 1) v"
        have t2: "take (i + num_nodes l + 1) ?v2 = take i v @ inorder l @ [k]"
          using True by (simp add: length_inorder)
        have d2: "drop (i + num_nodes l + 1 + n) ?v2 = drop (i + num_nodes l + 1 + n) v" for n
          using True by (simp add: length_inorder ac_simps)
        have len2: "length ?v2 = length v" using True by (simp add: length_inorder)
        show ?thesis using lN False l1 len v2 True
            Node.IH(2)[OF False, of ?v2 "i + num_nodes l + 1"] t2 d2[of "num_nodes r"] len2
          by (simp add: add.assoc)
      qed
    qed
  qed
qed

text \<open>
  Claim C9.  In a state in which \<open>count\<close> is the number of nodes of the tree,
  \<open>getKeys(v)\<close> writes the keys in order into the elements 0 to \<open>size() - 1\<close> of
  \<open>v\<close> and leaves the other elements as they are, if \<open>v\<close> has at least \<open>size()\<close>
  elements; otherwise one of its unchecked writes is out of bounds.
\<close>

theorem avl_getKeys_bounds:
  assumes "count s = of_nat (num_nodes (root s))" "num_nodes (root s) < 2 ^ 64"
  shows "length (inorder (root s)) = unat (avl_size s) \<and>
         avl_getKeys s v =
           (if unat (avl_size s) \<le> length v
            then Some (inorder (root s) @ drop (unat (avl_size s)) v)
            else None)"
proof -
  have n: "unat (avl_size s) = num_nodes (root s)"
    using assms by (simp add: avl_size_def unat_of_nat)
  show ?thesis
  proof (cases "root s = Null")
    case True
    then show ?thesis using n by (simp add: avl_getKeys_def)
  next
    case False
    then show ?thesis using n getKeys_rec_eq[OF False, of v 0]
      by (simp add: avl_getKeys_def length_inorder)
  qed
qed

text \<open>The hypotheses of C9 hold for a tree with the two keys 1 and 2.\<close>

theorem avl_getKeys_bounds_witness:
  "count (avlTree_init\<lparr>root := Node (2::int) (-1) (Node 1 0 Null Null) Null, count := 2\<rparr>)
     = of_nat (num_nodes (root (avlTree_init\<lparr>root := Node (2::int) (-1) (Node 1 0 Null Null) Null, count := 2\<rparr>)))
   \<and> num_nodes (root (avlTree_init\<lparr>root := Node (2::int) (-1) (Node 1 0 Null Null) Null, count := 2\<rparr>)) < 2 ^ 64
   \<and> avl_getKeys (avlTree_init\<lparr>root := Node (2::int) (-1) (Node 1 0 Null Null) Null, count := 2\<rparr>) [9, 9, 9]
       = Some [1, 2, 9]
   \<and> avl_getKeys (avlTree_init\<lparr>root := Node (2::int) (-1) (Node 1 0 Null Null) Null, count := 2\<rparr>) [9]
       = None"
proof -
  let ?s = "avlTree_init\<lparr>root := Node (2::int) (-1) (Node 1 0 Null Null) Null, count := 2\<rparr>"
  have h: "count ?s = of_nat (num_nodes (root ?s))" "num_nodes (root ?s) < 2 ^ 64"
    by simp_all
  show ?thesis
    using h avl_getKeys_bounds[OF h, of "[9, 9, 9]"] avl_getKeys_bounds[OF h, of "[9]"]
    by (simp add: avl_size_def)
qed

lemma freedSize_loop_add: "freedSize_loop t c = c + freedSize_loop t 0"
proof (induction t arbitrary: c)
  case Null
  then show ?case by simp
next
  case (Node k b l r)
  show ?case using Node.IH(1)[of "c + 1"] Node.IH(1)[of 1] by (simp add: add.assoc)
qed

lemma freedSize_push:
  "\<not> DISABLE_FREED_LIST cfg \<Longrightarrow> freed s' = Node kq bq (freed s) rq
     \<Longrightarrow> freedSize cfg s' = freedSize cfg s + 1"
  using freedSize_loop_add[of "freed s" 1] by (simp add: freedSize_def)

text \<open>
  Claim C10.  With the freed list (the default build), a call of \<open>erase\<close> on a tree
  that satisfies the invariants never calls \<open>delete\<close>.  If it returns true, the tree
  has one node less, one node has been prepended to the freed list through its \<open>left\<close>
  field, and \<open>freedSize()\<close> is greater by one.  If it returns false, the tree, the
  freed list and \<open>freedSize()\<close> are unchanged.  \<open>clear()\<close> deletes every node of the
  tree and of the freed list.
\<close>

theorem avl_erase_freed_list:
  assumes "avl_ok s" "\<not> DISABLE_FREED_LIST cfg"
  shows "\<exists>b s'. avl_erase cfg x s = Some (b, s')
      \<and> deletes s' = deletes s
      \<and> (b \<longrightarrow> num_nodes (root s) = num_nodes (root s') + 1
               \<and> (\<exists>kq bq rq. freed s' = Node kq bq (freed s) rq)
               \<and> freedSize cfg s' = freedSize cfg s + 1)
      \<and> (\<not> b \<longrightarrow> root s' = root s \<and> freed s' = freed s
               \<and> freedSize cfg s' = freedSize cfg s)
      \<and> deletes (avl_clear cfg s') = deletes s' + clear_rec (root s') + clearFreed_loop (freed s')
      \<and> freed (avl_clear cfg s') = Null \<and> root (avl_clear cfg s') = Null"
proof -
  from avl_erase_ok[OF assms(1), of cfg x]
  obtain s' where r: "avl_erase cfg x s = Some (x \<in> keys (root s), s')"
    "x \<notin> keys (root s) \<longrightarrow>
       root s' = root s \<and> count s' = count s \<and> freed s' = freed s \<and> deletes s' = deletes s"
    "x \<in> keys (root s) \<longrightarrow>
       num_nodes (root s) = num_nodes (root s') + 1 \<and> count s' = count s - 1 \<and> pool_push cfg s s'"
    by blast
  have d: "deletes s' = deletes s" using r(2,3) assms(2) by (auto simp: pool_push_def)
  have 1: "num_nodes (root s) = num_nodes (root s') + 1
               \<and> (\<exists>kq bq rq. freed s' = Node kq bq (freed s) rq)
               \<and> freedSize cfg s' = freedSize cfg s + 1" if "x \<in> keys (root s)"
    using that r(3) assms(2) freedSize_push[OF assms(2), of s' _ _ s] by (auto simp: pool_push_def)
  have 2: "root s' = root s \<and> freed s' = freed s \<and> freedSize cfg s' = freedSize cfg s"
    if "x \<notin> keys (root s)"
    using that r(2) by (simp add: freedSize_def)
  have 3: "deletes (avl_clear cfg s') = deletes s' + clear_rec (root s') + clearFreed_loop (freed s')
      \<and> freed (avl_clear cfg s') = Null \<and> root (avl_clear cfg s') = Null"
    using assms(2) by (simp add: avl_clear_def clearFreed_def)
  show ?thesis using r(1) d 1 2 3 by blast
qed

text \<open>The hypotheses of C10 hold for the erasure of 1 from a tree with the keys 1 and 2.\<close>

theorem avl_erase_freed_list_witness:
  "avl_ok (avlTree_init\<lparr>root := Node (2::int) (-1) (Node 1 0 Null Null) Null, count := 2\<rparr>)
   \<and> \<not> DISABLE_FREED_LIST default_build
   \<and> (\<exists>b s'. avl_erase default_build 1
                 (avlTree_init\<lparr>root := Node (2::int) (-1) (Node 1 0 Null Null) Null, count := 2\<rparr>)
               = Some (b, s')
        \<and> b \<and> freedSize default_build s' = 1 \<and> deletes s' = 0)"
proof -
  let ?s = "avlTree_init\<lparr>root := Node (2::int) (-1) (Node 1 0 Null Null) Null, count := 2\<rparr>"
  have h: "avl_ok ?s" "\<not> DISABLE_FREED_LIST default_build"
    by (simp_all add: avl_ok_def default_build_def)
  have e: "map_option fst (avl_erase default_build 1 ?s) = Some True"
    by code_simp
  have f: "freedSize default_build ?s = 0" "deletes ?s = 0"
    by (simp_all add: freedSize_def default_build_def avlTree_init_def)
  from avl_erase_freed_list[OF h, of 1]
  obtain b s' where r: "avl_erase default_build 1 ?s = Some (b, s')" "deletes s' = deletes ?s"
    "b \<longrightarrow> freedSize default_build s' = freedSize default_build ?s + 1" by blast
  have "b" using e unfolding r(1) by simp
  then have "freedSize default_build s' = 1" "deletes s' = 0" using r(2,3) f by simp_all
  then show ?thesis using h r(1) \<open>b\<close> by blast
qed

section \<open>Verification of the bottom-up red-black tree\<close>

lemma same_pool_refl [simp]: "same_pool s s"
  by (simp add: same_pool_def)

lemma same_pool_trans: "same_pool s s1 \<Longrightarrow> same_pool s1 s2 \<Longrightarrow> same_pool s s2"
  by (simp add: same_pool_def)

lemma color_BLACK_if: "c \<noteq> RED \<Longrightarrow> c \<noteq> DOUBLE_BLACK \<Longrightarrow> c = BLACK"
  by (cases c) auto

lemma frame_ok_color: "frame_ok f n \<Longrightarrow> frame_color f \<noteq> DOUBLE_BLACK"
  by (cases f) auto

lemma inorder_plug: "inorder (plug path t) = path_pre path @ inorder t @ path_post path"
  by (induction path t rule: plug.induct) auto

lemma plug_append: "plug (p @ q) t = plug q (plug p t)"
  by (induction p t rule: plug.induct) auto

lemma frame_color_cases:
  "frame_color f = c \<longleftrightarrow> (\<exists>k t. f = LeftOf k c t \<or> f = RightOf k c t)"
  by (cases f) auto

lemma rb_inv_plug:
  "path_inv path n \<Longrightarrow> rb_inv t \<Longrightarrow> rb_bh t = n
    \<Longrightarrow> (path \<noteq> [] \<and> frame_color (hd path) = RED \<longrightarrow> getColor t = BLACK)
    \<Longrightarrow> rb_inv (plug path t) \<and> (path \<noteq> [] \<longrightarrow> getColor (plug path t) = BLACK)"
proof (induction path t arbitrary: n rule: plug.induct)
  case (1 t)
  then show ?case by simp
next
  case (2 k c r path t)
  have "rb_inv (Node k c t r)" "rb_bh (Node k c t r) = n + (if c = BLACK then 1 else 0)"
    using 2(2-5) by (auto split: color.splits)
  moreover have "path \<noteq> [] \<and> frame_color (hd path) = RED \<longrightarrow> getColor (Node k c t r) = BLACK"
    using 2(2) by (cases path; cases c) auto
  moreover have "path_inv path (n + (if c = BLACK then 1 else 0))" using 2(2) by simp
  ultimately have "rb_inv (plug path (Node k c t r)) \<and>
       (path \<noteq> [] \<longrightarrow> getColor (plug path (Node k c t r)) = BLACK)"
    using 2(1) by blast
  moreover have "path = [] \<Longrightarrow> c = BLACK" using 2(2) by (cases c) auto
  ultimately show ?case by auto
next
  case (3 k c l path t)
  have "rb_inv (Node k c l t)" "rb_bh (Node k c l t) = n + (if c = BLACK then 1 else 0)"
    using 3(2-5) by (auto split: color.splits)
  moreover have "path \<noteq> [] \<and> frame_color (hd path) = RED \<longrightarrow> getColor (Node k c l t) = BLACK"
    using 3(2) by (cases path; cases c) auto
  moreover have "path_inv path (n + (if c = BLACK then 1 else 0))" using 3(2) by simp
  ultimately have "rb_inv (plug path (Node k c l t)) \<and>
       (path \<noteq> [] \<longrightarrow> getColor (plug path (Node k c l t)) = BLACK)"
    using 3(1) by blast
  moreover have "path = [] \<Longrightarrow> c = BLACK" using 3(2) by (cases c) auto
  ultimately show ?case by auto
qed

text \<open>The search for the point of insertion.\<close>

lemma burb_insert_loop_found:
  "bst t \<Longrightarrow> burb_insert_loop t path x = None \<longleftrightarrow> x \<in> keys t"
  by (induction t arbitrary: path) (auto simp: keys_def)

lemma burb_insert_loop_path:
  assumes "burb_insert_loop t path x = Some path'" "rb_inv t" "path_inv path (rb_bh t)"
    "path \<noteq> [] \<and> frame_color (hd path) = RED \<longrightarrow> getColor t = BLACK"
    "\<forall>y\<in>set (path_pre path). y < x" "\<forall>y\<in>set (path_post path). x < y" "bst t"
    "path = [] \<longrightarrow> getColor t = BLACK"
  shows "plug path' Null = plug path t \<and> path_inv path' 0
     \<and> (\<forall>y\<in>set (path_pre path'). y < x) \<and> (\<forall>y\<in>set (path_post path'). x < y)
     \<and> (t \<noteq> Null \<or> path \<noteq> [] \<longrightarrow> path' \<noteq> [])"
  using assms
proof (induction t arbitrary: path)
  case Null
  then show ?case by auto
next
  case (Node k c l r)
  consider (lt) "x < k" | (gt) "k < x" | (eq) "x = k" by (metis less_linear)
  then show ?case
  proof cases
    case eq
    then show ?thesis using Node.prems(1) by simp
  next
    case lt
    let ?p = "LeftOf k c r # path"
    have 1: "burb_insert_loop l ?p x = Some path'" using Node.prems(1) lt by simp
    have 2: "path_inv ?p (rb_bh l)" using Node.prems(2,3,4,8)
      by (cases path; cases c) (auto dest: frame_ok_color color_BLACK_if)
    have 3: "?p \<noteq> [] \<and> frame_color (hd ?p) = RED \<longrightarrow> getColor l = BLACK"
      using Node.prems(2) by auto
    have 4: "\<forall>y\<in>set (path_pre ?p). y < x" "\<forall>y\<in>set (path_post ?p). x < y"
      using Node.prems(5,6,7) lt by (auto simp: keys_def)
    show ?thesis using Node.IH(1)[OF 1 _ 2 3 4] Node.prems(2,7) by auto
  next
    case gt
    let ?p = "RightOf k c l # path"
    have nlt: "\<not> x < k" using gt by simp
    have 1: "burb_insert_loop r ?p x = Some path'" using Node.prems(1) gt nlt by simp
    have 2: "path_inv ?p (rb_bh r)" using Node.prems(2,3,4,8)
      by (cases path; cases c) (auto dest: frame_ok_color color_BLACK_if)
    have 3: "?p \<noteq> [] \<and> frame_color (hd ?p) = RED \<longrightarrow> getColor r = BLACK"
      using Node.prems(2) by auto
    have 4: "\<forall>y\<in>set (path_pre ?p). y < x" "\<forall>y\<in>set (path_post ?p). x < y"
      using Node.prems(5,6,7) gt by (auto simp: keys_def)
    show ?thesis using Node.IH(2)[OF 1 _ 2 3 4] Node.prems(2,7) by auto
  qed
qed

lemma burb_rotate_same_pool:
  "burb_rotateLeft t s = Some (t', s') \<Longrightarrow> same_pool s s'"
  "burb_rotateRight t s = Some (t', s') \<Longrightarrow> same_pool s s'"
  by (cases "(t, s)" rule: burb_rotateLeft.cases; auto simp: same_pool_def)
     (cases "(t, s)" rule: burb_rotateRight.cases; auto simp: same_pool_def)

lemma setColor_BLACK_inv:
  "rb_inv t \<Longrightarrow> getColor t = RED \<Longrightarrow>
     rb_inv (setColor t BLACK) \<and> rb_bh (setColor t BLACK) = rb_bh t + 1
     \<and> getColor (setColor t BLACK) = BLACK \<and> inorder (setColor t BLACK) = inorder t"
  by (cases t) auto

lemma inorder_setColor [simp]: "inorder (setColor t c) = inorder t"
  by (cases t) auto

lemma getColor_not_DB: "rb_inv t \<Longrightarrow> getColor t \<noteq> DOUBLE_BLACK"
  by (cases t) auto

lemma fixInsertion_rotate_left:
  assumes f1: "frame_ok f1 n" "frame_color f1 = RED" and u: "rb_inv uncle" "rb_bh uncle = n"
    "getColor uncle \<noteq> RED"
    and p: "rb_inv (Node k RED l r)" "rb_bh (Node k RED l r) = n"
  shows "\<exists>g' s2.
      do {
         (parent, s1) \<leftarrow>
           (case f1 of
              RightOf pk pc pl \<Rightarrow> burb_rotateLeft (Node pk pc pl (Node k RED l r)) s
            | LeftOf pk pc pr \<Rightarrow> Some (Node pk pc (Node k RED l r) pr, s));
         (g, s2) \<leftarrow> burb_rotateRight (Node gk BLACK parent uncle) s1;
         g' \<leftarrow> swap_color_right g;
         Some (plug rest g', s2)
       } = Some (plug rest g', s2)
     \<and> rb_inv g' \<and> rb_bh g' = n + 1 \<and> getColor g' = BLACK \<and> same_pool s s2
     \<and> inorder g' = inorder (plug [f1, LeftOf gk BLACK uncle] (Node k RED l r))"
proof -
  have ub: "getColor uncle = BLACK" using u(3) getColor_not_DB[OF u(1)] by (rule color_BLACK_if)
  show ?thesis
  proof (cases f1)
    case (LeftOf pk pc pr)
    show ?thesis using assms ub unfolding LeftOf
      by simp (intro exI conjI, rule refl, auto simp: same_pool_def)
  next
    case (RightOf pk pc pl)
    show ?thesis using assms ub unfolding RightOf
      by simp (intro exI conjI, rule refl, auto simp: same_pool_def)
  qed
qed

lemma fixInsertion_rotate_right:
  assumes f1: "frame_ok f1 n" "frame_color f1 = RED" and u: "rb_inv uncle" "rb_bh uncle = n"
    "getColor uncle \<noteq> RED"
    and p: "rb_inv (Node k RED l r)" "rb_bh (Node k RED l r) = n"
  shows "\<exists>g' s2.
      do {
         (parent, s1) \<leftarrow>
           (case f1 of
              LeftOf pk pc pr \<Rightarrow> burb_rotateRight (Node pk pc (Node k RED l r) pr) s
            | RightOf pk pc pl \<Rightarrow> Some (Node pk pc pl (Node k RED l r), s));
         (g, s2) \<leftarrow> burb_rotateLeft (Node gk BLACK uncle parent) s1;
         g' \<leftarrow> swap_color_left g;
         Some (plug rest g', s2)
       } = Some (plug rest g', s2)
     \<and> rb_inv g' \<and> rb_bh g' = n + 1 \<and> getColor g' = BLACK \<and> same_pool s s2
     \<and> inorder g' = inorder (plug [f1, RightOf gk BLACK uncle] (Node k RED l r))"
proof -
  have ub: "getColor uncle = BLACK" using u(3) getColor_not_DB[OF u(1)] by (rule color_BLACK_if)
  show ?thesis
  proof (cases f1)
    case (LeftOf pk pc pr)
    show ?thesis using assms ub unfolding LeftOf
      by simp (intro exI conjI, rule refl, auto simp: same_pool_def)
  next
    case (RightOf pk pc pl)
    show ?thesis using assms ub unfolding RightOf
      by simp (intro exI conjI, rule refl, auto simp: same_pool_def)
  qed
qed

lemma plug_not_Null: "t \<noteq> Null \<Longrightarrow> plug path t \<noteq> Null"
  by (induction path t rule: plug.induct) auto

lemma fixInsertion_loop_ok:
  assumes "path_inv path n" "rb_inv ptr" "rb_bh ptr = n" "ptr \<noteq> Null"
  shows "\<exists>t s'. fixInsertion_loop path ptr s = Some (t, s') \<and> rb_inv t \<and> t \<noteq> Null
           \<and> inorder t = inorder (plug path ptr) \<and> same_pool s s'"
  using assms
proof (induction path ptr s arbitrary: n rule: fixInsertion_loop.induct)
  case (1 path s)
  then show ?case by simp
next
  case (2 k c l r s)
  then show ?case by simp
next
  case (3 f k c l r s)
  have "frame_color f = BLACK" using 3(1) frame_ok_color[of f n]
    by (auto dest: color_BLACK_if)
  then show ?case using rb_inv_plug[OF 3(1,2,3)] by (cases f) auto
next
  case (4 f1 f2 rest k c l r s)
  let ?ptr = "Node k c l r"
  show ?case
  proof (cases "c = RED \<and> frame_color f1 = RED")
    case False
    have "frame_color f1 = RED \<longrightarrow> getColor ?ptr = BLACK"
      using False 4(4) by (cases c) auto
    then have "rb_inv (plug (f1 # f2 # rest) ?ptr)" using rb_inv_plug[OF 4(3,4,5)] by simp
    moreover have "plug (f1 # f2 # rest) ?ptr \<noteq> Null" by (rule plug_not_Null) simp
    ultimately show ?thesis using False by auto
  next
    case True
    then have cR: "c = RED" and f1R: "frame_color f1 = RED" by auto
    have f1ok: "frame_ok f1 n" and f2B: "frame_color f2 = BLACK" and f2ok: "frame_ok f2 n"
      and rest: "path_inv rest (n + 1)"
      using 4(3) f1R by auto
    show ?thesis
    proof (cases f2)
      case (LeftOf gk gc uncle)
      then have gc: "gc = BLACK" and u: "rb_inv uncle" "rb_bh uncle = n" using f2B f2ok by auto
      show ?thesis
      proof (cases "getColor uncle = RED")
        case uR: True
        let ?parent = "case f1 of LeftOf pk pc pr \<Rightarrow> Node pk BLACK ?ptr pr
                              | RightOf pk pc pl \<Rightarrow> Node pk BLACK pl ?ptr"
        let ?g = "Node gk RED ?parent (setColor uncle BLACK)"
        have p: "rb_inv ?parent" "rb_bh ?parent = n + 1" "getColor ?parent = BLACK"
          "inorder ?parent = inorder (plug [f1] ?ptr)"
          using f1ok 4(4,5) cR by (cases f1; auto)+
        have g: "rb_inv ?g" "rb_bh ?g = n + 1" "?g \<noteq> Null"
          using p setColor_BLACK_inv[OF u(1) uR] u(2) by auto
        from 4(1)[OF True LeftOf uR rest g] obtain t s' where
          t: "fixInsertion_loop rest ?g s = Some (t, s')" "rb_inv t" "t \<noteq> Null"
            "inorder t = inorder (plug rest ?g)" "same_pool s s'" by blast
        have ieq: "inorder (plug rest ?g) = inorder (plug (f1 # f2 # rest) ?ptr)"
          using p(4) LeftOf by (cases f1) (auto simp: inorder_plug)
        have eq: "fixInsertion_loop (f1 # f2 # rest) ?ptr s = fixInsertion_loop rest ?g s"
          using True LeftOf uR by (cases f1) simp_all
        show ?thesis unfolding eq using t(1,2,3,5) t(4)[unfolded ieq] by blast
      next
        case False
        from fixInsertion_rotate_left[OF f1ok f1R u False, of k l r s gk rest] 4(4,5) cR
        obtain g' s2 where g': "do {
             (parent, s1) \<leftarrow>
               (case f1 of
                  RightOf pk pc pl \<Rightarrow> burb_rotateLeft (Node pk pc pl (Node k RED l r)) s
                | LeftOf pk pc pr \<Rightarrow> Some (Node pk pc (Node k RED l r) pr, s));
             (g, s2) \<leftarrow> burb_rotateRight (Node gk BLACK parent uncle) s1;
             g' \<leftarrow> swap_color_right g;
             Some (plug rest g', s2)
           } = Some (plug rest g', s2)"
          "rb_inv g'" "rb_bh g' = n + 1" "getColor g' = BLACK" "same_pool s s2"
          "inorder g' = inorder (plug [f1, LeftOf gk BLACK uncle] (Node k RED l r))" by blast
        have "rb_inv (plug rest g')" using rb_inv_plug[OF rest g'(2,3)] g'(4) by simp
        moreover have "plug rest g' \<noteq> Null" using g'(6)
          by (intro plug_not_Null) (auto simp: inorder_plug)
        moreover have "inorder (plug rest g') = inorder (plug (f1 # f2 # rest) ?ptr)"
          using g'(6) LeftOf gc cR by (cases f1) (auto simp: inorder_plug)
        ultimately show ?thesis using True LeftOf False g'(1,5) gc cR
          by (simp del: plug.simps burb_rotateLeft.simps burb_rotateRight.simps)
      qed
    next
      case (RightOf gk gc uncle)
      then have gc: "gc = BLACK" and u: "rb_inv uncle" "rb_bh uncle = n" using f2B f2ok by auto
      show ?thesis
      proof (cases "getColor uncle = RED")
        case uR: True
        let ?parent = "case f1 of LeftOf pk pc pr \<Rightarrow> Node pk BLACK ?ptr pr
                              | RightOf pk pc pl \<Rightarrow> Node pk BLACK pl ?ptr"
        let ?g = "Node gk RED (setColor uncle BLACK) ?parent"
        have p: "rb_inv ?parent" "rb_bh ?parent = n + 1" "getColor ?parent = BLACK"
          "inorder ?parent = inorder (plug [f1] ?ptr)"
          using f1ok 4(4,5) cR by (cases f1; auto)+
        have g: "rb_inv ?g" "rb_bh ?g = n + 1" "?g \<noteq> Null"
          using p setColor_BLACK_inv[OF u(1) uR] u(2) by auto
        from 4(2)[OF True RightOf uR rest g] obtain t s' where
          t: "fixInsertion_loop rest ?g s = Some (t, s')" "rb_inv t" "t \<noteq> Null"
            "inorder t = inorder (plug rest ?g)" "same_pool s s'" by blast
        have ieq: "inorder (plug rest ?g) = inorder (plug (f1 # f2 # rest) ?ptr)"
          using p(4) RightOf by (cases f1) (auto simp: inorder_plug)
        have eq: "fixInsertion_loop (f1 # f2 # rest) ?ptr s = fixInsertion_loop rest ?g s"
          using True RightOf uR by (cases f1) simp_all
        show ?thesis unfolding eq using t(1,2,3,5) t(4)[unfolded ieq] by blast
      next
        case False
        from fixInsertion_rotate_right[OF f1ok f1R u False, of k l r s gk rest] 4(4,5) cR
        obtain g' s2 where g': "do {
             (parent, s1) \<leftarrow>
               (case f1 of
                  LeftOf pk pc pr \<Rightarrow> burb_rotateRight (Node pk pc (Node k RED l r) pr) s
                | RightOf pk pc pl \<Rightarrow> Some (Node pk pc pl (Node k RED l r), s));
             (g, s2) \<leftarrow> burb_rotateLeft (Node gk BLACK uncle parent) s1;
             g' \<leftarrow> swap_color_left g;
             Some (plug rest g', s2)
           } = Some (plug rest g', s2)"
          "rb_inv g'" "rb_bh g' = n + 1" "getColor g' = BLACK" "same_pool s s2"
          "inorder g' = inorder (plug [f1, RightOf gk BLACK uncle] (Node k RED l r))" by blast
        have "rb_inv (plug rest g')" using rb_inv_plug[OF rest g'(2,3)] g'(4) by simp
        moreover have "plug rest g' \<noteq> Null" using g'(6)
          by (intro plug_not_Null) (auto simp: inorder_plug)
        moreover have "inorder (plug rest g') = inorder (plug (f1 # f2 # rest) ?ptr)"
          using g'(6) RightOf gc cR by (cases f1) (auto simp: inorder_plug)
        ultimately show ?thesis using True RightOf False g'(1,5) gc cR
          by (simp del: plug.simps burb_rotateLeft.simps burb_rotateRight.simps)
      qed
    qed
  qed
qed

lemma assign_BLACK_ok:
  assumes "rb_inv t" "t \<noteq> Null"
  shows "\<exists>t'. assign_color t BLACK = Some t' \<and> rb_inv t' \<and> getColor t' = BLACK
     \<and> inorder t' = inorder t"
  using assms by (cases t) auto

lemma sorted_insert_mid:
  assumes "sorted_wrt (<) (pre @ post)" "\<forall>y\<in>set pre. y < x" "\<forall>y\<in>set post. x < (y::'a::linorder)"
  shows "sorted_wrt (<) (pre @ x # post)"
  using assms by (auto simp: sorted_wrt_append)

lemma burb_insert_ok:
  assumes ok: "burb_ok s"
  shows "\<exists>s'. burb_insert x s = Some (x \<notin> keys (root s), s') \<and> burb_ok s'
     \<and> keys (root s') = insert x (keys (root s))
     \<and> (x \<in> keys (root s) \<longrightarrow> root s' = root s \<and> count s' = count s)
     \<and> deletes s' = deletes s"
proof -
  obtain node s1 where ns: "burb_newNode x s = (node, s1)" by (cases "burb_newNode x s")
  have node: "node = Node x RED Null Null" and s1: "root s1 = root s" "count s1 = count s"
    "deletes s1 = deletes s"
    using ns by (auto simp: burb_newNode_def split: node.splits)
  have inv: "rb_inv (root s)" "getColor (root s) = BLACK" "bst (root s)"
    "count s = of_nat (num_nodes (root s))" using ok by (auto simp: burb_ok_def)
  show ?thesis
  proof (cases "root s = Null")
    case True
    then show ?thesis using ns node s1 inv(4) by (simp add: burb_insert_def burb_ok_def)
  next
    case False
    show ?thesis
    proof (cases "x \<in> keys (root s)")
      case True
      then have "burb_insert_loop (root s1) [] x = None"
        using burb_insert_loop_found[OF inv(3)] s1 by simp
      then show ?thesis using ns node s1 inv True False ok
        by (simp add: burb_insert_def burb_ok_def insert_absorb)
    next
      case notin: False
      then obtain path where path: "burb_insert_loop (root s) [] x = Some path"
        using burb_insert_loop_found[OF inv(3), of "[]" x] by (cases "burb_insert_loop (root s) [] x") auto
      from burb_insert_loop_path[OF path inv(1)] inv(2,3) False
      have p: "plug path Null = root s" "path_inv path 0" "\<forall>y\<in>set (path_pre path). y < x"
        "\<forall>y\<in>set (path_post path). x < y" "path \<noteq> []" by auto
      have "rb_inv node" "rb_bh node = 0" "node \<noteq> Null" using node by auto
      from fixInsertion_loop_ok[OF p(2) this, of s1] obtain t s2 where
        t: "fixInsertion_loop path node s1 = Some (t, s2)" "rb_inv t" "t \<noteq> Null"
          "inorder t = inorder (plug path node)" "same_pool s1 s2" by blast
      from assign_BLACK_ok[OF t(2,3)] obtain t' where
        t': "assign_color t BLACK = Some t'" "rb_inv t'" "getColor t' = BLACK"
          "inorder t' = inorder t" by blast
      have old: "inorder (root s) = path_pre path @ path_post path"
        using inorder_plug[of path Null] p(1) by simp
      have new: "inorder t' = path_pre path @ x # path_post path"
        using t'(4) t(4) node by (simp add: inorder_plug)
      have bst': "bst t'" using inv(3) p(3,4) unfolding bst_iff_sorted new old
        by (rule sorted_insert_mid)
      have keys': "keys t' = insert x (keys (root s))" unfolding keys_def new old by auto
      have nn: "num_nodes t' = num_nodes (root s) + 1"
        unfolding length_inorder[symmetric] new old by simp
      have cnt: "count s2 = count s" "deletes s2 = deletes s" using t(5) s1 by (auto simp: same_pool_def)
      have run: "burb_insert x s = Some (True, s2\<lparr>root := t', count := count s2 + 1\<rparr>)"
        using ns False s1 path p(5) t(1) t'(1) by (simp add: burb_insert_def fixInsertion_def)
      show ?thesis unfolding run using notin t'(2,3) bst' keys' nn cnt inv(4)
        by (simp add: burb_ok_def)
    qed
  qed
qed

lemma virt_Nil [simp]: "virt [] ptr v nd \<longleftrightarrow> v = Null \<and> nd = ptr"
  by (auto simp: virt_def)

lemma virt_Lft [simp]:
  "virt (Lft # rel) (Node k c l r) v nd \<longleftrightarrow> (\<exists>vl. v = Node k c vl r \<and> virt rel l vl nd)"
  by (auto simp: virt_def)

lemma virt_Rgt [simp]:
  "virt (Rgt # rel) (Node k c l r) v nd \<longleftrightarrow> (\<exists>vr. v = Node k c l vr \<and> virt rel r vr nd)"
  by (auto simp: virt_def)

lemma virt_recolor:
  assumes "rel \<noteq> []" "virt rel (Node k c l r) v nd"
  shows "virt rel (Node k c2 l r) (setColor v c2) nd \<and> getColor v = c \<and> v \<noteq> Null"
proof (cases rel)
  case Nil
  then show ?thesis using assms by simp
next
  case (Cons d ds)
  then show ?thesis using assms by (cases d) auto
qed

lemma fixErasure_step_left:
  assumes "frame_ok (LeftOf pk pc sib) n" "rb_inv vp" "rb_bh vp + 1 = n"
    "virt rel (Node k BLACK l r) vp nd"
  shows "(\<exists>sk sl sr s1.
            fixErasure_step (LeftOf pk pc sib) (Node k DOUBLE_BLACK l r) rel s
              = Some (Continue [LeftOf pk RED sl, LeftOf sk BLACK sr] (Node k DOUBLE_BLACK l r) rel, s1)
            \<and> pc = BLACK \<and> sib = Node sk RED sl sr
            \<and> frame_ok (LeftOf pk RED sl) n \<and> frame_ok (LeftOf sk BLACK sr) n \<and> same_pool s s1)
       \<or> (\<exists>sib'.
            fixErasure_step (LeftOf pk pc sib) (Node k DOUBLE_BLACK l r) rel s
              = Some (Continue [] (Node pk (if pc = RED then BLACK else DOUBLE_BLACK)
                                     (Node k BLACK l r) sib') (Lft # rel), s)
            \<and> rb_inv sib' \<and> rb_bh sib' + 1 = n \<and> inorder sib' = inorder sib)
       \<or> (\<exists>gk a b s1.
            fixErasure_step (LeftOf pk pc sib) (Node k DOUBLE_BLACK l r) rel s
              = Some (Break (Node gk pc (Node pk BLACK (Node k BLACK l r) a) b)
                        (Lft # Lft # rel), s1)
            \<and> rb_inv (Node gk pc (Node pk BLACK vp a) b)
            \<and> rb_bh (Node gk pc (Node pk BLACK vp a) b) = n + (if pc = BLACK then 1 else 0)
            \<and> inorder (Node gk pc (Node pk BLACK vp a) b) = inorder vp @ pk # inorder sib
            \<and> same_pool s s1)"
proof (cases "getColor sib = RED")
  case True
  then obtain sk sl sr where sib: "sib = Node sk RED sl sr" by (cases sib) auto
  have "pc = BLACK" using assms(1) sib by (cases pc) auto
  then show ?thesis using assms(1) sib by (auto simp: same_pool_def)
next
  case False
  then obtain sk sl sr where sib: "sib = Node sk BLACK sl sr"
    using assms(1,3) by (cases sib) (auto split: color.splits)
  have s: "rb_inv sl" "rb_inv sr" "rb_bh sl + 1 = n" "rb_bh sr + 1 = n" "pc \<noteq> DOUBLE_BLACK"
    using assms(1) sib by auto
  consider (r3) "getColor sl = BLACK" "getColor sr = BLACK"
    | (r5) "getColor sl = RED" "getColor sr = BLACK" | (r6) "getColor sr = RED"
    using s(1,2) getColor_not_DB[of sl] getColor_not_DB[of sr]
    by (cases "getColor sl"; cases "getColor sr") auto
  then show ?thesis
  proof cases
    case r3
    then show ?thesis using sib s by auto
  next
    case r5
    then obtain slk sll slr where sl: "sl = Node slk RED sll slr" by (cases sl) auto
    show ?thesis using sib s sl r5 assms(2,3,4)
      by (cases pc) (auto simp: same_pool_def)
  next
    case r6
    then obtain srk srl srr where sr: "sr = Node srk RED srl srr" by (cases sr) auto
    show ?thesis using sib s sr assms(2,3,4)
      by (cases pc) (auto simp: same_pool_def)
  qed
qed

lemma fixErasure_step_right:
  assumes "frame_ok (RightOf pk pc sib) n" "rb_inv vp" "rb_bh vp + 1 = n"
    "virt rel (Node k BLACK l r) vp nd"
  shows "(\<exists>sk sl sr s1.
            fixErasure_step (RightOf pk pc sib) (Node k DOUBLE_BLACK l r) rel s
              = Some (Continue [RightOf pk RED sr, RightOf sk BLACK sl] (Node k DOUBLE_BLACK l r) rel, s1)
            \<and> pc = BLACK \<and> sib = Node sk RED sl sr
            \<and> frame_ok (RightOf pk RED sr) n \<and> frame_ok (RightOf sk BLACK sl) n \<and> same_pool s s1)
       \<or> (\<exists>sib'.
            fixErasure_step (RightOf pk pc sib) (Node k DOUBLE_BLACK l r) rel s
              = Some (Continue [] (Node pk (if pc = RED then BLACK else DOUBLE_BLACK)
                                     sib' (Node k BLACK l r)) (Rgt # rel), s)
            \<and> rb_inv sib' \<and> rb_bh sib' + 1 = n \<and> inorder sib' = inorder sib)
       \<or> (\<exists>gk a b s1.
            fixErasure_step (RightOf pk pc sib) (Node k DOUBLE_BLACK l r) rel s
              = Some (Break (Node gk pc a (Node pk BLACK b (Node k BLACK l r)))
                        (Rgt # Rgt # rel), s1)
            \<and> rb_inv (Node gk pc a (Node pk BLACK b vp))
            \<and> rb_bh (Node gk pc a (Node pk BLACK b vp)) = n + (if pc = BLACK then 1 else 0)
            \<and> inorder (Node gk pc a (Node pk BLACK b vp)) = inorder sib @ pk # inorder vp
            \<and> same_pool s s1)"
proof (cases "getColor sib = RED")
  case True
  then obtain sk sl sr where sib: "sib = Node sk RED sl sr" by (cases sib) auto
  have "pc = BLACK" using assms(1) sib by (cases pc) auto
  then show ?thesis using assms(1) sib by (auto simp: same_pool_def)
next
  case False
  then obtain sk sl sr where sib: "sib = Node sk BLACK sl sr"
    using assms(1,3) by (cases sib) (auto split: color.splits)
  have s: "rb_inv sl" "rb_inv sr" "rb_bh sl + 1 = n" "rb_bh sr + 1 = n" "pc \<noteq> DOUBLE_BLACK"
    using assms(1) sib by auto
  consider (r3) "getColor sl = BLACK" "getColor sr = BLACK"
    | (r5) "getColor sr = RED" "getColor sl = BLACK" | (r6) "getColor sl = RED"
    using s(1,2) getColor_not_DB[of sl] getColor_not_DB[of sr]
    by (cases "getColor sl"; cases "getColor sr") auto
  then show ?thesis
  proof cases
    case r3
    then show ?thesis using sib s by auto
  next
    case r5
    then obtain srk srl srr where sr: "sr = Node srk RED srl srr" by (cases sr) auto
    show ?thesis using sib s sr r5 assms(2,3,4)
      by (cases pc) (auto simp: same_pool_def)
  next
    case r6
    then obtain slk sll slr where sl: "sl = Node slk RED sll slr" by (cases sl) auto
    show ?thesis using sib s sl assms(2,3,4)
      by (cases pc) (auto simp: same_pool_def)
  qed
qed

lemma rb_inv_setColor_BLACK: "rb_inv t \<Longrightarrow> rb_inv (setColor t BLACK)"
  by (cases t) auto

lemma setColor_setColor [simp]: "setColor (setColor t c) c' = setColor t c'"
  by (cases t) auto

lemma setColor_plug: "path \<noteq> [] \<Longrightarrow> getColor (plug path t) = BLACK \<Longrightarrow> setColor (plug path t) BLACK = plug path t"
  by (cases "plug path t") auto

lemma path_inv_hd_black:
  "path_inv (f # rest) n \<Longrightarrow> rest \<noteq> [] \<Longrightarrow> frame_color (hd rest) = RED \<Longrightarrow> frame_color f = BLACK"
  by (cases "frame_color f") (auto dest: frame_ok_color)

lemma loop_postI:
  assumes "res = Some (path', ptr', rel', s')" "virt rel' ptr' v' nd" "rel' \<noteq> []"
    "rb_inv (setColor (plug path' v') BLACK)" "inorder (plug path' v') = inorder (plug path vp)"
    "same_pool s s'"
  shows "loop_post path vp nd s res"
  unfolding loop_post_def using assms by blast

lemma loop_post_trans:
  assumes "loop_post path1 vp1 nd s1 res" "inorder (plug path1 vp1) = inorder (plug path vp)"
    "same_pool s s1"
  shows "loop_post path vp nd s res"
  using assms unfolding loop_post_def by (metis same_pool_trans)

lemma fixErasure_loop_ok:
  assumes "path_inv path n" "ptr \<noteq> Null" "virt rel (setColor ptr BLACK) vp nd" "rb_inv vp"
    "(getColor ptr = DOUBLE_BLACK \<and> rb_bh vp + 1 = n \<and> (rel = [] \<longrightarrow> path \<noteq> []))
     \<or> (getColor ptr = BLACK \<and> rb_bh vp = n \<and> rel \<noteq> [])"
  shows "loop_post path vp nd s (fixErasure_loop path ptr rel s)"
  using assms
proof (induction path ptr rel s arbitrary: n vp rule: fixErasure_loop.induct)
  case (1 path rel s)
  then show ?case by simp
next
  case (2 k c l r rel s)
  then have rel: "rel \<noteq> []" and vb: "virt rel (Node k BLACK l r) vp nd" by auto
  from virt_recolor[OF rel vb, of c] have v: "virt rel (Node k c l r) (setColor vp c) nd"
    by simp
  have run: "fixErasure_loop [] (Node k c l r) rel s = Some ([], Node k c l r, rel, s)" by simp
  show ?case
    by (rule loop_postI[OF run v rel]) (use 2(4) in \<open>simp_all add: rb_inv_setColor_BLACK\<close>)
next
  case (3 f rest k c l r rel s)
  have vb: "virt rel (Node k BLACK l r) vp nd" using 3(4) by simp
  have vinv: "rb_inv vp" by (rule 3(5))
  have cond0: "(c = DOUBLE_BLACK \<and> rb_bh vp + 1 = n \<and> (rel = [] \<longrightarrow> f # rest \<noteq> []))
     \<or> (c = BLACK \<and> rb_bh vp = n \<and> rel \<noteq> [])" using 3(6) by simp
  show ?case
  proof (cases "c = DOUBLE_BLACK")
    case False
    then have c: "c = BLACK" and bh: "rb_bh vp = n" and rel: "rel \<noteq> []" using cond0 by auto
    from virt_recolor[OF rel vb, of BLACK] have vcol: "getColor vp = BLACK" by simp
    have "rb_inv (plug (f # rest) vp)" using rb_inv_plug[OF 3(2) vinv bh] vcol by simp
    then have inv: "rb_inv (setColor (plug (f # rest) vp) BLACK)" by (rule rb_inv_setColor_BLACK)
    have run: "fixErasure_loop (f # rest) (Node k c l r) rel s = Some (f # rest, Node k c l r, rel, s)"
      using c by simp
    show ?thesis using vb c by (intro loop_postI[OF run _ rel inv]) auto
  next
    case True
    then have bh: "rb_bh vp + 1 = n" using cond0 by auto
    have fok: "frame_ok f n" and prest: "path_inv rest (n + (if frame_color f = BLACK then 1 else 0))"
      using 3(2) by auto
    show ?thesis
    proof (cases f)
      case (LeftOf pk pc sib)
      from fixErasure_step_left[OF fok[unfolded LeftOf] vinv bh vb, of s]
      consider (r4) sk sl sr s1 where
          "fixErasure_step (LeftOf pk pc sib) (Node k DOUBLE_BLACK l r) rel s
              = Some (Continue [LeftOf pk RED sl, LeftOf sk BLACK sr] (Node k DOUBLE_BLACK l r) rel, s1)"
          "pc = BLACK" "sib = Node sk RED sl sr"
          "frame_ok (LeftOf pk RED sl) n" "frame_ok (LeftOf sk BLACK sr) n" "same_pool s s1"
        | (r3) sib' where
          "fixErasure_step (LeftOf pk pc sib) (Node k DOUBLE_BLACK l r) rel s
              = Some (Continue [] (Node pk (if pc = RED then BLACK else DOUBLE_BLACK)
                                     (Node k BLACK l r) sib') (Lft # rel), s)"
          "rb_inv sib'" "rb_bh sib' + 1 = n" "inorder sib' = inorder sib"
        | (r6) gk a b s1 where
          "fixErasure_step (LeftOf pk pc sib) (Node k DOUBLE_BLACK l r) rel s
              = Some (Break (Node gk pc (Node pk BLACK (Node k BLACK l r) a) b)
                        (Lft # Lft # rel), s1)"
          "rb_inv (Node gk pc (Node pk BLACK vp a) b)"
          "rb_bh (Node gk pc (Node pk BLACK vp a) b) = n + (if pc = BLACK then 1 else 0)"
          "inorder (Node gk pc (Node pk BLACK vp a) b) = inorder vp @ pk # inorder sib"
          "same_pool s s1"
        by blast
      then show ?thesis
      proof cases
        case r4
        let ?frames = "[LeftOf pk RED sl, LeftOf sk BLACK sr]"
        have pi: "path_inv (?frames @ rest) n" using r4(2,4,5) prest LeftOf by simp
        have cond: "(getColor (Node k c l r) = DOUBLE_BLACK \<and> rb_bh vp + 1 = n
              \<and> (rel = [] \<longrightarrow> ?frames @ rest \<noteq> []))
           \<or> (getColor (Node k c l r) = BLACK \<and> rb_bh vp = n \<and> rel \<noteq> [])"
          using bh True by simp
        have nn: "Node k c l r \<noteq> Null" by simp
        have vb': "virt rel (setColor (Node k c l r) BLACK) vp nd" using vb by simp
        have IH: "loop_post (?frames @ rest) vp nd s1
            (fixErasure_loop (?frames @ rest) (Node k c l r) rel s1)"
          proof -
          have step: "fixErasure_step f (Node k c l r) rel s
              = Some (Continue ?frames (Node k c l r) rel, s1)"
            using r4(1) LeftOf True by simp
          show ?thesis using 3(1)[OF True step refl refl pi nn vb' vinv cond] .
        qed
        have run: "fixErasure_loop (f # rest) (Node k c l r) rel s
            = fixErasure_loop (?frames @ rest) (Node k c l r) rel s1"
          using True r4(1) LeftOf by simp
        have io: "inorder (plug (?frames @ rest) vp) = inorder (plug (f # rest) vp)"
          using r4(3) LeftOf by (simp add: inorder_plug)
        show ?thesis unfolding run by (rule loop_post_trans[OF IH io r4(6)])
      next
        case r3
        let ?c' = "if pc = RED then BLACK else DOUBLE_BLACK"
        let ?vp' = "Node pk BLACK vp sib'"
        have v': "virt (Lft # rel) (setColor (Node pk ?c' (Node k BLACK l r) sib') BLACK) ?vp' nd"
          using vb by simp
        have nn: "Node pk ?c' (Node k BLACK l r) sib' \<noteq> Null" by simp
        have inv': "rb_inv ?vp'" using vinv r3(2,3) bh by simp
        have pc: "pc \<noteq> DOUBLE_BLACK" using fok LeftOf by simp
        have pi: "path_inv ([] @ rest) (n + (if pc = BLACK then 1 else 0))"
          using prest LeftOf by simp
        have cond: "(getColor (Node pk ?c' (Node k BLACK l r) sib') = DOUBLE_BLACK
              \<and> rb_bh ?vp' + 1 = n + (if pc = BLACK then 1 else 0)
              \<and> (Lft # rel = [] \<longrightarrow> [] @ rest \<noteq> []))
           \<or> (getColor (Node pk ?c' (Node k BLACK l r) sib') = BLACK
              \<and> rb_bh ?vp' = n + (if pc = BLACK then 1 else 0) \<and> Lft # rel \<noteq> [])"
          using bh pc by (cases pc) auto
        have IH: "loop_post ([] @ rest) ?vp' nd s
            (fixErasure_loop ([] @ rest) (Node pk ?c' (Node k BLACK l r) sib') (Lft # rel) s)"
          proof -
          have step: "fixErasure_step f (Node k c l r) rel s
              = Some (Continue [] (Node pk ?c' (Node k BLACK l r) sib') (Lft # rel), s)"
            using r3(1) LeftOf True by simp
          show ?thesis using 3(1)[OF True step refl refl pi nn v' inv' cond] .
        qed
        have run: "fixErasure_loop (f # rest) (Node k c l r) rel s
            = fixErasure_loop ([] @ rest) (Node pk ?c' (Node k BLACK l r) sib') (Lft # rel) s"
          using True r3(1) LeftOf by simp
        have io: "inorder (plug ([] @ rest) ?vp') = inorder (plug (f # rest) vp)"
          using r3(4) LeftOf by (simp add: inorder_plug)
        show ?thesis unfolding run by (rule loop_post_trans[OF IH io same_pool_refl])
      next
        case r6
        let ?t = "Node gk pc (Node pk BLACK (Node k BLACK l r) a) b"
        let ?v = "Node gk pc (Node pk BLACK vp a) b"
        have run: "fixErasure_loop (f # rest) (Node k c l r) rel s = Some (rest, ?t, Lft # Lft # rel, s1)"
          using True r6(1) LeftOf by simp
        have v: "virt (Lft # Lft # rel) ?t ?v nd" using vb by simp
        have pc: "pc \<noteq> DOUBLE_BLACK" using fok LeftOf by simp
        have pi: "path_inv rest (n + (if pc = BLACK then 1 else 0))" using prest LeftOf by simp
        have "rest \<noteq> [] \<and> frame_color (hd rest) = RED \<longrightarrow> getColor ?v = BLACK"
          using path_inv_hd_black[OF 3(2)] LeftOf by auto
        from rb_inv_plug[OF pi r6(2,3) this]
        have inv: "rb_inv (setColor (plug rest ?v) BLACK)" by (simp add: rb_inv_setColor_BLACK)
        have io: "inorder (plug rest ?v) = inorder (plug (f # rest) vp)"
          unfolding inorder_plug r6(4) using LeftOf by simp
        show ?thesis by (rule loop_postI[OF run v _ inv io r6(5)]) simp
      qed
    next
      case (RightOf pk pc sib)
      from fixErasure_step_right[OF fok[unfolded RightOf] vinv bh vb, of s]
      consider (r4) sk sl sr s1 where
          "fixErasure_step (RightOf pk pc sib) (Node k DOUBLE_BLACK l r) rel s
              = Some (Continue [RightOf pk RED sr, RightOf sk BLACK sl] (Node k DOUBLE_BLACK l r) rel, s1)"
          "pc = BLACK" "sib = Node sk RED sl sr"
          "frame_ok (RightOf pk RED sr) n" "frame_ok (RightOf sk BLACK sl) n" "same_pool s s1"
        | (r3) sib' where
          "fixErasure_step (RightOf pk pc sib) (Node k DOUBLE_BLACK l r) rel s
              = Some (Continue [] (Node pk (if pc = RED then BLACK else DOUBLE_BLACK)
                                     sib' (Node k BLACK l r)) (Rgt # rel), s)"
          "rb_inv sib'" "rb_bh sib' + 1 = n" "inorder sib' = inorder sib"
        | (r6) gk a b s1 where
          "fixErasure_step (RightOf pk pc sib) (Node k DOUBLE_BLACK l r) rel s
              = Some (Break (Node gk pc a (Node pk BLACK b (Node k BLACK l r)))
                        (Rgt # Rgt # rel), s1)"
          "rb_inv (Node gk pc a (Node pk BLACK b vp))"
          "rb_bh (Node gk pc a (Node pk BLACK b vp)) = n + (if pc = BLACK then 1 else 0)"
          "inorder (Node gk pc a (Node pk BLACK b vp)) = inorder sib @ pk # inorder vp"
          "same_pool s s1"
        by blast
      then show ?thesis
      proof cases
        case r4
        let ?frames = "[RightOf pk RED sr, RightOf sk BLACK sl]"
        have pi: "path_inv (?frames @ rest) n" using r4(2,4,5) prest RightOf by simp
        have cond: "(getColor (Node k c l r) = DOUBLE_BLACK \<and> rb_bh vp + 1 = n
              \<and> (rel = [] \<longrightarrow> ?frames @ rest \<noteq> []))
           \<or> (getColor (Node k c l r) = BLACK \<and> rb_bh vp = n \<and> rel \<noteq> [])"
          using bh True by simp
        have nn: "Node k c l r \<noteq> Null" by simp
        have vb': "virt rel (setColor (Node k c l r) BLACK) vp nd" using vb by simp
        have IH: "loop_post (?frames @ rest) vp nd s1
            (fixErasure_loop (?frames @ rest) (Node k c l r) rel s1)"
          proof -
          have step: "fixErasure_step f (Node k c l r) rel s
              = Some (Continue ?frames (Node k c l r) rel, s1)"
            using r4(1) RightOf True by simp
          show ?thesis using 3(1)[OF True step refl refl pi nn vb' vinv cond] .
        qed
        have run: "fixErasure_loop (f # rest) (Node k c l r) rel s
            = fixErasure_loop (?frames @ rest) (Node k c l r) rel s1"
          using True r4(1) RightOf by simp
        have io: "inorder (plug (?frames @ rest) vp) = inorder (plug (f # rest) vp)"
          using r4(3) RightOf by (simp add: inorder_plug)
        show ?thesis unfolding run by (rule loop_post_trans[OF IH io r4(6)])
      next
        case r3
        let ?c' = "if pc = RED then BLACK else DOUBLE_BLACK"
        let ?vp' = "Node pk BLACK sib' vp"
        have v': "virt (Rgt # rel) (setColor (Node pk ?c' sib' (Node k BLACK l r)) BLACK) ?vp' nd"
          using vb by simp
        have nn: "Node pk ?c' sib' (Node k BLACK l r) \<noteq> Null" by simp
        have inv': "rb_inv ?vp'" using vinv r3(2,3) bh by simp
        have pc: "pc \<noteq> DOUBLE_BLACK" using fok RightOf by simp
        have pi: "path_inv ([] @ rest) (n + (if pc = BLACK then 1 else 0))"
          using prest RightOf by simp
        have cond: "(getColor (Node pk ?c' sib' (Node k BLACK l r)) = DOUBLE_BLACK
              \<and> rb_bh ?vp' + 1 = n + (if pc = BLACK then 1 else 0)
              \<and> (Rgt # rel = [] \<longrightarrow> [] @ rest \<noteq> []))
           \<or> (getColor (Node pk ?c' sib' (Node k BLACK l r)) = BLACK
              \<and> rb_bh ?vp' = n + (if pc = BLACK then 1 else 0) \<and> Rgt # rel \<noteq> [])"
          using bh pc r3(3) by (cases pc) auto
        have IH: "loop_post ([] @ rest) ?vp' nd s
            (fixErasure_loop ([] @ rest) (Node pk ?c' sib' (Node k BLACK l r)) (Rgt # rel) s)"
          proof -
          have step: "fixErasure_step f (Node k c l r) rel s
              = Some (Continue [] (Node pk ?c' sib' (Node k BLACK l r)) (Rgt # rel), s)"
            using r3(1) RightOf True by simp
          show ?thesis using 3(1)[OF True step refl refl pi nn v' inv' cond] .
        qed
        have run: "fixErasure_loop (f # rest) (Node k c l r) rel s
            = fixErasure_loop ([] @ rest) (Node pk ?c' sib' (Node k BLACK l r)) (Rgt # rel) s"
          using True r3(1) RightOf by simp
        have io: "inorder (plug ([] @ rest) ?vp') = inorder (plug (f # rest) vp)"
          using r3(4) RightOf by (simp add: inorder_plug)
        show ?thesis unfolding run by (rule loop_post_trans[OF IH io same_pool_refl])
      next
        case r6
        let ?t = "Node gk pc a (Node pk BLACK b (Node k BLACK l r))"
        let ?v = "Node gk pc a (Node pk BLACK b vp)"
        have run: "fixErasure_loop (f # rest) (Node k c l r) rel s = Some (rest, ?t, Rgt # Rgt # rel, s1)"
          using True r6(1) RightOf by simp
        have v: "virt (Rgt # Rgt # rel) ?t ?v nd" using vb by simp
        have pc: "pc \<noteq> DOUBLE_BLACK" using fok RightOf by simp
        have pi: "path_inv rest (n + (if pc = BLACK then 1 else 0))" using prest RightOf by simp
        have "rest \<noteq> [] \<and> frame_color (hd rest) = RED \<longrightarrow> getColor ?v = BLACK"
          using path_inv_hd_black[OF 3(2)] RightOf by auto
        from rb_inv_plug[OF pi r6(2,3) this]
        have inv: "rb_inv (setColor (plug rest ?v) BLACK)" by (simp add: rb_inv_setColor_BLACK)
        have io: "inorder (plug rest ?v) = inorder (plug (f # rest) vp)"
          unfolding inorder_plug r6(4) using RightOf by simp
        show ?thesis by (rule loop_postI[OF run v _ inv io r6(5)]) simp
      qed
    qed
  qed
qed

lemma pos_ok_down:
  assumes "pos_ok path (Node k c l r)"
  shows "pos_ok (LeftOf k' c r # path) l" "pos_ok (RightOf k' c l # path) r"
proof -
  have a: "rb_inv (Node k c l r)" "path_inv path (rb_bh (Node k c l r))"
    "path \<noteq> [] \<and> frame_color (hd path) = RED \<longrightarrow> c = BLACK" "path = [] \<longrightarrow> c = BLACK"
    using assms by (auto simp: pos_ok_def)
  have "path_inv (LeftOf k' c r # path) (rb_bh l)" using a
    by (cases path; cases c) (auto dest: frame_ok_color color_BLACK_if)
  then show "pos_ok (LeftOf k' c r # path) l" using a(1) by (auto simp: pos_ok_def)
  have "path_inv (RightOf k' c l # path) (rb_bh r)" using a
    by (cases path; cases c) (auto dest: frame_ok_color color_BLACK_if)
  then show "pos_ok (RightOf k' c l # path) r" using a(1) by (auto simp: pos_ok_def)
qed

lemma eraseMinValue_path:
  "eraseMinValue t path = map_option (\<lambda>(p, n). (p @ path, n)) (eraseMinValue t [])"
proof (induction t arbitrary: path)
  case Null
  then show ?case by simp
next
  case (Node k c l r)
  show ?case
  proof (cases "l = Null")
    case True
    then show ?thesis by simp
  next
    case False
    have "eraseMinValue l (LeftOf k c r # path)
        = map_option (\<lambda>(p, n). (p @ LeftOf k c r # path, n)) (eraseMinValue l [])"
      by (rule Node.IH(1))
    moreover have "eraseMinValue l [LeftOf k c r]
        = map_option (\<lambda>(p, n). (p @ [LeftOf k c r], n)) (eraseMinValue l [])"
      by (rule Node.IH(1))
    ultimately show ?thesis using False
      by (cases "eraseMinValue l []") auto
  qed
qed

lemma eraseMinValue_ok:
  assumes "pos_ok path t" "t \<noteq> Null"
  shows "\<exists>path' k c r. eraseMinValue t path = Some (path', Node k c Null r)
     \<and> pos_ok path' (Node k c Null r) \<and> path_pre path' = path_pre path
     \<and> k # inorder r @ path_post path' = inorder t @ path_post path
     \<and> plug path' (Node k c Null r) = plug path t \<and> path' \<noteq> [] = (path \<noteq> [] \<or> left t \<noteq> Null)"
  using assms
proof (induction t arbitrary: path)
  case Null
  then show ?case by simp
next
  case (Node k c l r)
  show ?case
  proof (cases "l = Null")
    case True
    then show ?thesis using Node.prems by auto
  next
    case False
    from Node.IH(1)[OF pos_ok_down(1)[OF Node.prems(1)] False, of k]
    show ?thesis using False by auto
  qed
qed

lemma burb_erase_loop_absent:
  "bst t \<Longrightarrow> x \<notin> keys t \<Longrightarrow> burb_erase_loop t path x = Some None"
  by (induction t arbitrary: path) auto

lemma burb_erase_loop_found:
  assumes "pos_ok path t" "bst t" "x \<in> keys t"
  shows "\<exists>path' k c l r pre post.
       burb_erase_loop t path x = Some (Some (path', Node k c l r))
     \<and> (l = Null \<or> r = Null) \<and> pos_ok path' (Node k c l r)
     \<and> inorder t = pre @ x # post
     \<and> path_pre path' @ inorder l @ inorder r @ path_post path'
         = path_pre path @ pre @ post @ path_post path
     \<and> (path \<noteq> [] \<longrightarrow> path' \<noteq> [])"
  using assms
proof (induction t arbitrary: path)
  case Null
  then show ?case by simp
next
  case (Node k c l r)
  consider (lt) "x < k" | (gt) "k < x" | (eq) "x = k" by (metis less_linear)
  then show ?case
  proof cases
    case lt
    then have "x \<in> keys l" using Node.prems(2,3) by auto
    from Node.IH(1)[OF pos_ok_down(1)[OF Node.prems(1)] _ this, of k] Node.prems(2)
    obtain path' k' c' l' r' pre post where
      a: "burb_erase_loop l (LeftOf k c r # path) x = Some (Some (path', Node k' c' l' r'))"
        "l' = Null \<or> r' = Null" "pos_ok path' (Node k' c' l' r')"
        "inorder l = pre @ x # post"
        "path_pre path' @ inorder l' @ inorder r' @ path_post path'
           = path_pre (LeftOf k c r # path) @ pre @ post @ path_post (LeftOf k c r # path)"
        "path' \<noteq> []" by auto
    have run: "burb_erase_loop (Node k c l r) path x = Some (Some (path', Node k' c' l' r'))"
      using a(1) lt by simp
    have io: "inorder (Node k c l r) = pre @ x # (post @ k # inorder r)" using a(4) by simp
    have eq: "path_pre path' @ inorder l' @ inorder r' @ path_post path'
           = path_pre path @ pre @ (post @ k # inorder r) @ path_post path" using a(5) by simp
    show ?thesis using run a(2,3,6) io eq by blast
  next
    case gt
    then have nlt: "\<not> x < k" by simp
    have "x \<in> keys r" using Node.prems(2,3) gt by auto
    from Node.IH(2)[OF pos_ok_down(2)[OF Node.prems(1)] _ this, of k] Node.prems(2)
    obtain path' k' c' l' r' pre post where
      a: "burb_erase_loop r (RightOf k c l # path) x = Some (Some (path', Node k' c' l' r'))"
        "l' = Null \<or> r' = Null" "pos_ok path' (Node k' c' l' r')"
        "inorder r = pre @ x # post"
        "path_pre path' @ inorder l' @ inorder r' @ path_post path'
           = path_pre (RightOf k c l # path) @ pre @ post @ path_post (RightOf k c l # path)"
        "path' \<noteq> []" by auto
    have run: "burb_erase_loop (Node k c l r) path x = Some (Some (path', Node k' c' l' r'))"
      using a(1) gt nlt by simp
    have io: "inorder (Node k c l r) = (inorder l @ k # pre) @ x # post" using a(4) by simp
    have eq: "path_pre path' @ inorder l' @ inorder r' @ path_post path'
           = path_pre path @ (inorder l @ k # pre) @ post @ path_post path" using a(5) by simp
    show ?thesis using run a(2,3,6) io eq by blast
  next
    case eq
    show ?thesis
    proof (cases "l = Null \<or> r = Null")
      case True
      have run: "burb_erase_loop (Node k c l r) path x = Some (Some (path, Node k c l r))"
        using True eq by simp
      have io: "inorder (Node k c l r) = inorder l @ x # inorder r" using eq by simp
      have e: "path_pre path @ inorder l @ inorder r @ path_post path
           = path_pre path @ inorder l @ inorder r @ path_post path" by simp
      show ?thesis using run True Node.prems(1) io e by blast
    next
      case False
      then have rn: "r \<noteq> Null" by simp
      from eraseMinValue_ok[OF pos_ok_down(2)[OF Node.prems(1), of k] rn]
      obtain p0 k0 c0 r0 where
        b: "eraseMinValue r (RightOf k c l # path) = Some (p0, Node k0 c0 Null r0)" by blast
      then obtain inner where
        inner: "eraseMinValue r [] = Some (inner, Node k0 c0 Null r0)"
        using eraseMinValue_path[of r "RightOf k c l # path"] by (cases "eraseMinValue r []") auto
      let ?path = "RightOf k0 c l # path"
      have c: "eraseMinValue r ?path = Some (inner @ ?path, Node k0 c0 Null r0)"
        using eraseMinValue_path[of r ?path] inner by simp
      from eraseMinValue_ok[OF pos_ok_down(2)[OF Node.prems(1), of k0] rn] c
      have d: "pos_ok (inner @ ?path) (Node k0 c0 Null r0)"
        "path_pre (inner @ ?path) = path_pre ?path"
        "k0 # inorder r0 @ path_post (inner @ ?path) = inorder r @ path_post ?path"
        by auto
      have run: "burb_erase_loop (Node k c l r) path x
          = Some (Some (inner @ ?path, Node k0 c0 Null r0))"
        using False eq inner by simp
      have io: "inorder (Node k c l r) = inorder l @ x # inorder r" using eq by simp
      have e: "path_pre (inner @ ?path) @ inorder Null @ inorder r0 @ path_post (inner @ ?path)
           = path_pre path @ inorder l @ inorder r @ path_post path"
        using d(2,3) by simp
      have "Null = Null \<or> r0 = Null" by simp
      then show ?thesis using run d(1) io e by blast
    qed
  qed
qed

lemma rb_bh_0_black: "rb_inv t \<Longrightarrow> rb_bh t = 0 \<Longrightarrow> getColor t = BLACK \<Longrightarrow> t = Null"
  by (cases t) auto

lemma plug_Cons_not_Null:
  assumes "path \<noteq> []"
  shows "plug path t \<noteq> Null"
proof (cases path)
  case Nil
  then show ?thesis using assms by simp
next
  case (Cons f rest)
  then show ?thesis by (cases f) (auto simp: plug_not_Null)
qed

lemma burb_deleteNode_Node:
  "\<exists>s'. burb_deleteNode (Node k c l r) s = Some s' \<and> root s' = root s \<and> count s' = count s
     \<and> news s' = news s \<and> deletes s' = deletes s \<and> freed s' = Node k c (freed s) r"
  by simp

lemma fixErasure_root:
  assumes "pos_ok [] (Node k c l r)" "l = Null \<or> r = Null"
  shows "\<exists>t s'. fixErasure [] (Node k c l r) s = Some (t, s') \<and> rb_inv t \<and> getColor t = BLACK
     \<and> inorder t = inorder l @ inorder r
     \<and> count s' = count s \<and> news s' = news s \<and> deletes s' = deletes s"
proof -
  have a: "rb_inv l" "rb_inv r" using assms(1) by (auto simp: pos_ok_def)
  show ?thesis
  proof (cases "l = Null")
    case True
    then show ?thesis using a by (cases r) (auto simp: fixErasure_def)
  next
    case False
    then have "r = Null" using assms(2) by simp
    then show ?thesis using a False by (cases l) (auto simp: fixErasure_def)
  qed
qed

lemma fixErasure_red:
  assumes "pos_ok path (Node k c l r)" "l = Null \<or> r = Null" "path \<noteq> []"
    "c = RED \<or> getColor l = RED \<or> getColor r = RED"
  shows "\<exists>t s'. fixErasure path (Node k c l r) s = Some (t, s') \<and> rb_inv t \<and> getColor t = BLACK
     \<and> inorder t = path_pre path @ inorder l @ inorder r @ path_post path
     \<and> count s' = count s \<and> news s' = news s \<and> deletes s' = deletes s"
proof -
  let ?child = "if l \<noteq> Null then l else r"
  have a: "rb_inv (Node k c l r)" "path_inv path (rb_bh (Node k c l r))"
    using assms(1) by (auto simp: pos_ok_def)
  have inv: "rb_inv (setColor ?child BLACK)" using a(1) by (auto intro: rb_inv_setColor_BLACK)
  have bh: "rb_bh (setColor ?child BLACK) = rb_bh (Node k c l r)"
  proof (cases "c = RED")
    case True
    then have "l = Null \<and> r = Null" using a(1) assms(2) by (auto dest: rb_bh_0_black)
    then show ?thesis using True by simp
  next
    case False
    then have c: "c = BLACK" using a(1) by (cases c) auto
    show ?thesis
    proof (cases "l = Null")
      case True
      then have "getColor r = RED" using assms(4) False by simp
      then show ?thesis using True c a(1) by (cases r) auto
    next
      case lf: False
      then have "r = Null" using assms(2) by simp
      then have "getColor l = RED" using assms(4) False by simp
      then show ?thesis using lf c a(1) by (cases l) auto
    qed
  qed
  have col: "path \<noteq> [] \<and> frame_color (hd path) = RED \<longrightarrow> getColor (setColor ?child BLACK) = BLACK"
    by (cases ?child) auto
  from rb_inv_plug[OF a(2) inv bh col] assms(3)
  have t: "rb_inv (plug path (setColor ?child BLACK))"
    "getColor (plug path (setColor ?child BLACK)) = BLACK" by auto
  have io: "inorder (plug path (setColor ?child BLACK))
      = path_pre path @ inorder l @ inorder r @ path_post path"
    using assms(2) by (auto simp: inorder_plug)
  obtain s' where s': "burb_deleteNode (Node k c l r) s = Some s'" "count s' = count s"
    "news s' = news s" "deletes s' = deletes s"
    using burb_deleteNode_Node[of k c l r s] by blast
  have run: "fixErasure path (Node k c l r) s = Some (plug path (setColor ?child BLACK), s')"
    using assms(3,4) s'(1) by (simp add: fixErasure_def Let_def del: burb_deleteNode.simps)
  show ?thesis using run t io s'(2,3,4) by blast
qed

lemma fixErasure_black:
  assumes "pos_ok path (Node k c l r)" "l = Null \<or> r = Null" "path \<noteq> []"
    "\<not> (c = RED \<or> getColor l = RED \<or> getColor r = RED)"
  shows "\<exists>t s'. fixErasure path (Node k c l r) s = Some (t, s') \<and> rb_inv t \<and> getColor t = BLACK
     \<and> inorder t = path_pre path @ inorder l @ inorder r @ path_post path
     \<and> count s' = count s \<and> news s' = news s \<and> deletes s' = deletes s"
proof -
  have a: "rb_inv (Node k c l r)" "path_inv path (rb_bh (Node k c l r))"
    using assms(1) by (auto simp: pos_ok_def)
  have c: "c = BLACK" using a(1) assms(4) by (cases c) auto
  have bl: "getColor l = BLACK" "getColor r = BLACK"
    using a(1) assms(4) getColor_not_DB[of l] getColor_not_DB[of r]
    by (cases "getColor l"; cases "getColor r"; simp)+
  have lr: "l = Null" "r = Null" using a(1) assms(2) bl by (auto dest: rb_bh_0_black)
  let ?nd = "Node k BLACK Null Null"
  let ?ptr = "Node k DOUBLE_BLACK l r"
  have pi: "path_inv path 1" using a(2) c lr by simp
  have v: "virt [] (setColor ?ptr BLACK) Null ?nd" using lr by simp
  have cond: "(getColor ?ptr = DOUBLE_BLACK \<and> rb_bh (Null :: 'a rb_node) + 1 = 1 \<and> ([] = ([] :: dir list) \<longrightarrow> path \<noteq> []))
     \<or> (getColor ?ptr = BLACK \<and> rb_bh (Null :: 'a rb_node) = 1 \<and> [] \<noteq> ([] :: dir list))"
    using assms(3) by simp
  have "loop_post path Null ?nd s (fixErasure_loop path ?ptr [] s)"
    by (rule fixErasure_loop_ok[OF pi _ v _ cond]) simp_all
  then obtain path' ptr' rel' s1 v' where
    l: "fixErasure_loop path ?ptr [] s = Some (path', ptr', rel', s1)" "virt rel' ptr' v' ?nd"
      "rel' \<noteq> []" "rb_inv (setColor (plug path' v') BLACK)"
      "inorder (plug path' v') = inorder (plug path Null)" "same_pool s s1"
    unfolding loop_post_def by blast
  have "inorder (plug path Null) \<noteq> []"
    using plug_Cons_not_Null[OF assms(3), of Null] by (cases "plug path Null") auto
  then have "inorder (plug path' v') \<noteq> []" unfolding l(5) .
  then have nn: "plug path' v' \<noteq> Null" by auto
  then obtain t' where t': "assign_color (plug path' v') BLACK = Some t'"
    "t' = setColor (plug path' v') BLACK" by (cases "plug path' v'") auto
  obtain s2 where s2: "burb_deleteNode ?nd s1 = Some s2" "count s2 = count s1"
    "news s2 = news s1" "deletes s2 = deletes s1"
    using burb_deleteNode_Node[of k BLACK Null Null s1] by blast
  have g: "get_at rel' ptr' = Some ?nd" "replace_at rel' ptr' Null = Some v'"
    using l(2) by (auto simp: virt_def)
  have run: "fixErasure path (Node k c l r) s = Some (t', s2)"
    using assms(3,4) l(1,3) g s2(1) t'(1)
    by (simp add: fixErasure_def del: burb_deleteNode.simps)
  have col: "getColor t' = BLACK" using t'(2) nn by (cases "plug path' v'") auto
  have io: "inorder t' = path_pre path @ inorder l @ inorder r @ path_post path"
    using t'(2) l(5) lr by (simp add: inorder_plug)
  have pool: "count s2 = count s" "news s2 = news s" "deletes s2 = deletes s"
    using s2(2,3,4) l(6) by (auto simp: same_pool_def)
  show ?thesis using run l(4) t'(2) col io pool by blast
qed

lemma fixErasure_ok:
  assumes "pos_ok path (Node k c l r)" "l = Null \<or> r = Null"
  shows "\<exists>t s'. fixErasure path (Node k c l r) s = Some (t, s') \<and> rb_inv t \<and> getColor t = BLACK
     \<and> inorder t = path_pre path @ inorder l @ inorder r @ path_post path
     \<and> count s' = count s \<and> news s' = news s \<and> deletes s' = deletes s"
proof (cases "path = []")
  case True
  then show ?thesis using fixErasure_root[OF assms[unfolded True], of s] True by simp
next
  case False
  show ?thesis
  proof (cases "c = RED \<or> getColor l = RED \<or> getColor r = RED")
    case True
    show ?thesis by (rule fixErasure_red[OF assms False True])
  next
    case nr: False
    show ?thesis by (rule fixErasure_black[OF assms False nr])
  qed
qed

lemma sorted_remove_mid:
  assumes "sorted_wrt (<) (pre @ x # post)"
  shows "sorted_wrt (<) (pre @ post)" "set (pre @ post) = set (pre @ x # post) - {x::'a::linorder}"
  using assms by (auto simp: sorted_wrt_append)

lemma burb_erase_ok:
  assumes ok: "burb_ok s"
  shows "\<exists>s'. burb_erase x s = Some (x \<in> keys (root s), s') \<and> burb_ok s'
     \<and> keys (root s') = keys (root s) - {x}
     \<and> (x \<notin> keys (root s) \<longrightarrow> s' = s)
     \<and> (x \<in> keys (root s) \<longrightarrow> num_nodes (root s) = num_nodes (root s') + 1
           \<and> count s' = count s - 1)
     \<and> news s' = news s \<and> deletes s' = deletes s"
proof (cases "x \<in> keys (root s)")
  case False
  have "bst (root s)" using ok by (simp add: burb_ok_def)
  from burb_erase_loop_absent[OF this False, of "[]"] show ?thesis
    using False ok by (simp add: burb_erase_def)
next
  case True
  have inv: "rb_inv (root s)" "getColor (root s) = BLACK" "bst (root s)"
    "count s = of_nat (num_nodes (root s))" using ok by (auto simp: burb_ok_def)
  have pos: "pos_ok [] (root s)" using inv by (simp add: pos_ok_def)
  from burb_erase_loop_found[OF pos inv(3) True] obtain path k c l r pre post where
    f: "burb_erase_loop (root s) [] x = Some (Some (path, Node k c l r))"
      "l = Null \<or> r = Null" "pos_ok path (Node k c l r)" "inorder (root s) = pre @ x # post"
      "path_pre path @ inorder l @ inorder r @ path_post path = pre @ post"
    by auto
  let ?s0 = "s\<lparr>count := count s - 1\<rparr>"
  from fixErasure_ok[OF f(3,2), of ?s0] obtain t s1 where
    t: "fixErasure path (Node k c l r) ?s0 = Some (t, s1)" "rb_inv t" "getColor t = BLACK"
      "inorder t = path_pre path @ inorder l @ inorder r @ path_post path"
      "count s1 = count ?s0" "news s1 = news ?s0" "deletes s1 = deletes ?s0" by blast
  have io: "inorder t = pre @ post" using t(4) f(5) by simp
  have srt: "sorted_wrt (<) (pre @ x # post)" using inv(3) f(4) by (simp add: bst_iff_sorted)
  have bst': "bst t" unfolding bst_iff_sorted io by (rule sorted_remove_mid(1)[OF srt])
  have keys': "keys t = keys (root s) - {x}"
    unfolding keys_def io f(4) by (rule sorted_remove_mid(2)[OF srt])
  have nn: "num_nodes (root s) = num_nodes t + 1"
    unfolding length_inorder[symmetric] io f(4) by simp
  have cnt: "count s1 = of_nat (num_nodes t)" using t(5) inv(4) nn by simp
  have run: "burb_erase x s = Some (True, s1\<lparr>root := t\<rparr>)"
    using f(1) t(1) by (simp add: burb_erase_def)
  show ?thesis unfolding run using True t(2,3,5,6,7) bst' keys' nn cnt
    by (simp add: burb_ok_def)
qed

section \<open>Reachable states of the AVL tree and of the bottom-up red-black tree\<close>

lemma contains_loop_iff: "bst t \<Longrightarrow> contains_loop t x \<longleftrightarrow> x \<in> keys t"
  by (induction t) auto

lemma avl_run_ok:
  "avl_ok s \<Longrightarrow> \<exists>s'. avl_run cfg ops s = Some s' \<and> avl_ok s'
     \<and> keys (root s') = live_keys ops (keys (root s))"
proof (induction ops arbitrary: s)
  case Nil
  then show ?case by simp
next
  case (Cons a ops)
  show ?case
  proof (cases a)
    case (Insert x)
    from avl_insert_ok[OF Cons.prems, of cfg x] obtain s1 where
      s1: "avl_insert cfg x s = Some (x \<notin> keys (root s), s1)" "avl_ok s1"
        "keys (root s1) = insert x (keys (root s))" by blast
    from Cons.IH[OF s1(2)] show ?thesis using s1(1,3) Insert by simp
  next
    case (Erase x)
    from avl_erase_ok[OF Cons.prems, of cfg x] obtain s1 where
      s1: "avl_erase cfg x s = Some (x \<in> keys (root s), s1)" "avl_ok s1"
        "keys (root s1) = keys (root s) - {x}" by blast
    from Cons.IH[OF s1(2)] show ?thesis using s1(1,3) Erase by simp
  qed
qed

lemma burb_ok_init: "burb_ok burbTree_init"
  by (simp add: burb_ok_def burbTree_init_def)

lemma burb_run_ok:
  "burb_ok s \<Longrightarrow> \<exists>s'. burb_run ops s = Some s' \<and> burb_ok s'
     \<and> keys (root s') = live_keys ops (keys (root s))"
proof (induction ops arbitrary: s)
  case Nil
  then show ?case by simp
next
  case (Cons a ops)
  show ?case
  proof (cases a)
    case (Insert x)
    from burb_insert_ok[OF Cons.prems, of x] obtain s1 where
      s1: "burb_insert x s = Some (x \<notin> keys (root s), s1)" "burb_ok s1"
        "keys (root s1) = insert x (keys (root s))" by blast
    from Cons.IH[OF s1(2)] show ?thesis using s1(1,3) Insert by simp
  next
    case (Erase x)
    from burb_erase_ok[OF Cons.prems, of x] obtain s1 where
      s1: "burb_erase x s = Some (x \<in> keys (root s), s1)" "burb_ok s1"
        "keys (root s1) = keys (root s) - {x}" by blast
    from Cons.IH[OF s1(2)] show ?thesis using s1(1,3) Erase by simp
  qed
qed

lemma avl_reach_ok: "avl_run cfg ops avlTree_init = Some s \<Longrightarrow> avl_ok s \<and> keys (root s) = live_keys ops {}"
  using avl_run_ok[OF avl_ok_init, of cfg ops] by (auto simp: avlTree_init_def)

lemma burb_reach_ok: "burb_run ops burbTree_init = Some s \<Longrightarrow> burb_ok s \<and> keys (root s) = live_keys ops {}"
  using burb_run_ok[OF burb_ok_init, of ops] by (auto simp: burbTree_init_def)

lemma getKeys_root:
  assumes "bst t" "card (keys t) \<le> length v"
  shows "(if t \<noteq> Null then map_option fst (getKeys_rec t v 0) else Some v)
     = Some (inorder t @ drop (card (keys t)) v)"
proof (cases "t = Null")
  case True
  then show ?thesis by simp
next
  case False
  have n: "num_nodes t = card (keys t)" by (rule bst_card[OF assms(1)])
  show ?thesis using False getKeys_rec_eq[OF False, of v 0] assms(2) n by simp
qed

text \<open>
  Claim C4.  After every sequence of calls of \<open>insert\<close> and \<open>erase\<close> on an empty AVL
  tree or bottom-up red-black tree, \<open>getKeys(v)\<close> on a vector with room for the live
  keys returns, and the elements that it has written are strictly increasing and are
  exactly the live keys, the keys inserted and not erased afterwards; the other elements of
  the vector are unchanged.
\<close>

theorem getKeys_sorted_live_keys:
  assumes "card (live_keys ops {}) \<le> length v"
  shows "(\<exists>s ks. avl_run cfg ops avlTree_init = Some s \<and> avl_getKeys s v = Some ks
            \<and> sorted_wrt (<) (take (card (live_keys ops {})) ks)
            \<and> set (take (card (live_keys ops {})) ks) = live_keys ops {}
            \<and> drop (card (live_keys ops {})) ks = drop (card (live_keys ops {})) v)
       \<and> (\<exists>t ks. burb_run ops burbTree_init = Some t \<and> burb_getKeys t v = Some ks
            \<and> sorted_wrt (<) (take (card (live_keys ops {})) ks)
            \<and> set (take (card (live_keys ops {})) ks) = live_keys ops {}
            \<and> drop (card (live_keys ops {})) ks = drop (card (live_keys ops {})) v)"
proof -
  let ?n = "card (live_keys ops {})"
  from avl_run_ok[OF avl_ok_init, of cfg ops] obtain s where
    s: "avl_run cfg ops avlTree_init = Some s" "avl_ok s" "keys (root s) = live_keys ops {}"
    by (auto simp: avlTree_init_def)
  from burb_run_ok[OF burb_ok_init, of ops] obtain t where
    t: "burb_run ops burbTree_init = Some t" "burb_ok t" "keys (root t) = live_keys ops {}"
    by (auto simp: burbTree_init_def)
  have bs: "bst (root s)" and bt: "bst (root t)"
    using s(2) t(2) by (auto simp: avl_ok_def burb_ok_def)
  have ls: "length (inorder (root s)) = ?n" and lt: "length (inorder (root t)) = ?n"
    using bst_card[OF bs] bst_card[OF bt] s(3) t(3) by (simp_all add: length_inorder)
  have gs: "avl_getKeys s v = Some (inorder (root s) @ drop ?n v)"
    using getKeys_root[OF bs, of v] assms s(3) by (simp add: avl_getKeys_def)
  have gt: "burb_getKeys t v = Some (inorder (root t) @ drop ?n v)"
    using getKeys_root[OF bt, of v] assms t(3) by (simp add: burb_getKeys_def)
  have A: "\<exists>s ks. avl_run cfg ops avlTree_init = Some s \<and> avl_getKeys s v = Some ks
            \<and> sorted_wrt (<) (take ?n ks) \<and> set (take ?n ks) = live_keys ops {}
            \<and> drop ?n ks = drop ?n v"
    using s(1,3) gs ls bs by (intro exI[of _ s] exI[of _ "inorder (root s) @ drop ?n v"])
      (simp add: bst_iff_sorted keys_def)
  have B: "\<exists>t ks. burb_run ops burbTree_init = Some t \<and> burb_getKeys t v = Some ks
            \<and> sorted_wrt (<) (take ?n ks) \<and> set (take ?n ks) = live_keys ops {}
            \<and> drop ?n ks = drop ?n v"
    using t(1,3) gt lt bt by (intro exI[of _ t] exI[of _ "inorder (root t) @ drop ?n v"])
      (simp add: bst_iff_sorted keys_def)
  show ?thesis using A B by blast
qed

text \<open>
  The hypothesis of C4 holds for a vector of three elements after the insertion of 3 and
  1, the erasure of 3 and the insertion of 2.
\<close>

theorem getKeys_sorted_live_keys_witness:
  "card (live_keys [Insert (3::int), Insert 1, Erase 3, Insert 2] {}) \<le> length [0, 0, 0::int]
   \<and> (\<exists>s. avl_run default_build [Insert (3::int), Insert 1, Erase 3, Insert 2] avlTree_init = Some s
          \<and> avl_getKeys s [0, 0, 0] = Some [1, 2, 0])
   \<and> (\<exists>t. burb_run [Insert (3::int), Insert 1, Erase 3, Insert 2] burbTree_init = Some t
          \<and> burb_getKeys t [0, 0, 0] = Some [1, 2, 0])"
proof -
  let ?ops = "[Insert (3::int), Insert 1, Erase 3, Insert 2]"
  let ?v = "[0, 0, 0::int]"
  have c: "card (live_keys ?ops {}) \<le> length ?v" by simp
  have ra: "avl_run default_build ?ops avlTree_init \<bind> (\<lambda>s. avl_getKeys s ?v) = Some [1, 2, 0]"
    by code_simp
  have rb: "burb_run ?ops burbTree_init \<bind> (\<lambda>t. burb_getKeys t ?v) = Some [1, 2, 0]"
    by code_simp
  from getKeys_sorted_live_keys[OF c, of default_build] obtain s ks t ks' where
    s: "avl_run default_build ?ops avlTree_init = Some s" "avl_getKeys s ?v = Some ks" and
    t: "burb_run ?ops burbTree_init = Some t" "burb_getKeys t ?v = Some ks'" by blast
  have "ks = [1, 2, 0]" using ra unfolding s(1) by (simp add: s(2))
  moreover have "ks' = [1, 2, 0]" using rb unfolding t(1) by (simp add: t(2))
  ultimately show ?thesis using c s t by blast
qed

text \<open>
  Claim C6, as amended.  When the sibling of the DOUBLE_BLACK node is BLACK and both children
  of the sibling are BLACK, the iteration of the loop of \<open>fixErasure\<close> makes the
  DOUBLE_BLACK node BLACK and the sibling RED and moves to the parent.  A BLACK parent becomes
  DOUBLE_BLACK, and the loop continues from it unless it is the root; a RED parent becomes
  BLACK, which ends the loop.
\<close>

theorem fixErasure_black_sibling_black_children:
  assumes "getColor sl = BLACK" "getColor sr = BLACK"
  shows "fixErasure_step (LeftOf pk pc (Node sk BLACK sl sr)) (Node k DOUBLE_BLACK l r) rel s
           = Some (Continue []
                     (Node pk (if pc = RED then BLACK else DOUBLE_BLACK)
                        (Node k BLACK l r) (Node sk RED sl sr)) (Lft # rel), s)
       \<and> fixErasure_step (RightOf pk pc (Node sk BLACK sl sr)) (Node k DOUBLE_BLACK l r) rel s
           = Some (Continue []
                     (Node pk (if pc = RED then BLACK else DOUBLE_BLACK)
                        (Node sk RED sl sr) (Node k BLACK l r)) (Rgt # rel), s)
       \<and> fixErasure_loop (LeftOf pk pc (Node sk BLACK sl sr) # rest) (Node k DOUBLE_BLACK l r) rel s
           = (if pc = RED \<or> rest = []
              then Some (rest, Node pk (if pc = RED then BLACK else DOUBLE_BLACK)
                                 (Node k BLACK l r) (Node sk RED sl sr), Lft # rel, s)
              else fixErasure_loop rest
                     (Node pk DOUBLE_BLACK (Node k BLACK l r) (Node sk RED sl sr)) (Lft # rel) s)
       \<and> fixErasure_loop (RightOf pk pc (Node sk BLACK sl sr) # rest) (Node k DOUBLE_BLACK l r) rel s
           = (if pc = RED \<or> rest = []
              then Some (rest, Node pk (if pc = RED then BLACK else DOUBLE_BLACK)
                                 (Node sk RED sl sr) (Node k BLACK l r), Rgt # rel, s)
              else fixErasure_loop rest
                     (Node pk DOUBLE_BLACK (Node sk RED sl sr) (Node k BLACK l r)) (Rgt # rel) s)"
proof -
  have 1: "fixErasure_step (LeftOf pk pc (Node sk BLACK sl sr)) (Node k DOUBLE_BLACK l r) rel s
           = Some (Continue []
                     (Node pk (if pc = RED then BLACK else DOUBLE_BLACK)
                        (Node k BLACK l r) (Node sk RED sl sr)) (Lft # rel), s)"
    using assms by simp
  have 2: "fixErasure_step (RightOf pk pc (Node sk BLACK sl sr)) (Node k DOUBLE_BLACK l r) rel s
           = Some (Continue []
                     (Node pk (if pc = RED then BLACK else DOUBLE_BLACK)
                        (Node sk RED sl sr) (Node k BLACK l r)) (Rgt # rel), s)"
    using assms by simp
  have 3: "fixErasure_loop (LeftOf pk pc (Node sk BLACK sl sr) # rest) (Node k DOUBLE_BLACK l r) rel s
           = fixErasure_loop rest (Node pk (if pc = RED then BLACK else DOUBLE_BLACK)
                        (Node k BLACK l r) (Node sk RED sl sr)) (Lft # rel) s"
    using 1 by (simp del: fixErasure_step.simps)
  have 4: "fixErasure_loop (RightOf pk pc (Node sk BLACK sl sr) # rest) (Node k DOUBLE_BLACK l r) rel s
           = fixErasure_loop rest (Node pk (if pc = RED then BLACK else DOUBLE_BLACK)
                        (Node sk RED sl sr) (Node k BLACK l r)) (Rgt # rel) s"
    using 2 by (simp del: fixErasure_step.simps)
  have 5: "fixErasure_loop rest (Node pk' c' a b) rel' s
       = Some (rest, Node pk' c' a b, rel', s)" if "c' \<noteq> DOUBLE_BLACK \<or> rest = []"
    for pk' c' a b rel'
    using that by (cases rest) auto
  show ?thesis unfolding 3 4 using 1 2 5 by auto
qed

text \<open>
  Claim C6 as it is stated fails for a RED parent.  In the tree with the BLACK root 5, its
  RED left child 2 with the BLACK children 1 and 3, and its BLACK right child 7 (the tree
  after the insertion of 5, 2, 7, 1, 3 and 4 and the erasure of 4), the erasure of 1 makes
  the node 1 DOUBLE_BLACK; its sibling 3 is BLACK and has no RED child.  The iteration makes
  the parent 2 BLACK, not DOUBLE_BLACK, and the loop ends at the node 2, below the root.
\<close>

theorem fixErasure_red_parent_counterexample:
  "getColor (Node (3::int) BLACK Null Null) = BLACK
   \<and> getColor (left (Node (3::int) BLACK Null Null)) = BLACK
   \<and> getColor (right (Node (3::int) BLACK Null Null)) = BLACK
   \<and> fixErasure_step (LeftOf 2 RED (Node 3 BLACK Null Null)) (Node 1 DOUBLE_BLACK Null Null) []
        burbTree_init
       = Some (Continue [] (Node 2 BLACK (Node 1 BLACK Null Null) (Node 3 RED Null Null)) [Lft],
               burbTree_init)
   \<and> fixErasure_loop [LeftOf 2 RED (Node 3 BLACK Null Null), LeftOf 5 BLACK (Node 7 BLACK Null Null)]
        (Node 1 DOUBLE_BLACK Null Null) [] burbTree_init
       = Some ([LeftOf 5 BLACK (Node 7 BLACK Null Null)],
               Node 2 BLACK (Node 1 BLACK Null Null) (Node 3 RED Null Null), [Lft], burbTree_init)"
  by simp

text \<open>
  The hypotheses of C6 hold for a sibling without children, with a BLACK and with a RED
  parent.
\<close>

theorem fixErasure_black_sibling_black_children_witness:
  "getColor (Null :: int rb_node) = BLACK
   \<and> fixErasure_loop [LeftOf 2 BLACK (Node 3 BLACK Null Null), LeftOf 5 BLACK (Node 7 BLACK (Node 6 BLACK Null Null) (Node 8 BLACK Null Null))]
        (Node (1::int) DOUBLE_BLACK Null Null) [] burbTree_init
       = fixErasure_loop [LeftOf 5 BLACK (Node 7 BLACK (Node 6 BLACK Null Null) (Node 8 BLACK Null Null))]
           (Node 2 DOUBLE_BLACK (Node 1 BLACK Null Null) (Node 3 RED Null Null)) [Lft] burbTree_init
   \<and> fixErasure_loop [LeftOf 2 RED (Node 3 BLACK Null Null), LeftOf 5 BLACK (Node 7 BLACK Null Null)]
        (Node (1::int) DOUBLE_BLACK Null Null) [] burbTree_init
       = Some ([LeftOf 5 BLACK (Node 7 BLACK Null Null)],
               Node 2 BLACK (Node 1 BLACK Null Null) (Node 3 RED Null Null), [Lft], burbTree_init)"
proof -
  have h: "getColor (Null :: int rb_node) = BLACK" by simp
  show ?thesis
    using h
      fixErasure_black_sibling_black_children[where sl = Null and sr = Null and pk = 2
        and pc = BLACK and sk = 3 and k = "1::int" and l = Null and r = Null and rel = "[]"
        and s = burbTree_init
        and rest = "[LeftOf 5 BLACK (Node 7 BLACK (Node 6 BLACK Null Null) (Node 8 BLACK Null Null))]",
        OF h h]
      fixErasure_black_sibling_black_children[where sl = Null and sr = Null and pk = 2
        and pc = RED and sk = 3 and k = "1::int" and l = Null and r = Null and rel = "[]"
        and s = burbTree_init and rest = "[LeftOf 5 BLACK (Node 7 BLACK Null Null)]", OF h h]
    by (simp del: fixErasure_loop.simps fixErasure_step.simps)
qed

section \<open>Verification of the left-leaning red-black tree\<close>


lemma llrb_rotateLeft_left:
  "llrb_rotateLeft (Node k c l r) s = (p', s') \<Longrightarrow> p' \<noteq> Null \<and> (l \<noteq> Null \<longrightarrow> left p' \<noteq> Null)"
  by (cases r) auto

lemma flipColors_left:
  "flipColors (Node k c l r) \<noteq> Null \<and> (left (flipColors (Node k c l r)) = Null \<longleftrightarrow> l = Null)"
  by (cases "Node k c l r" rule: flipColors.cases) auto

lemma moveRedLeft_total:
  "\<exists>p1 s1. moveRedLeft (Node k c l r) s = Some (p1, s1) \<and> p1 \<noteq> Null
      \<and> (l \<noteq> Null \<longrightarrow> left p1 \<noteq> Null)"
proof -
  obtain k' c' l' r' where f: "flipColors (Node k c l r) = Node k' c' l' r'"
    using flipColors_left[of k c l r] by (cases "flipColors (Node k c l r)") auto
  have l': "l \<noteq> Null \<longrightarrow> l' \<noteq> Null" using flipColors_left[of k c l r] f by auto
  show ?thesis
  proof (cases "r' \<noteq> Null \<and> isRed (left r')")
    case False
    then show ?thesis using f l' by auto
  next
    case True
    obtain r'' s1 where a: "llrb_rotateRight r' s = (r'', s1)" by (cases "llrb_rotateRight r' s")
    obtain p1 s2 where b: "llrb_rotateLeft (Node k' c' l' r'') s1 = (p1, s2)"
      by (cases "llrb_rotateLeft (Node k' c' l' r'') s1")
    have m: "moveRedLeft (Node k c l r) s = Some (flipColors p1, s2)"
      using f True a b by simp
    obtain k1 c1 l1 r1 where p1: "p1 = Node k1 c1 l1 r1"
      using llrb_rotateLeft_left[OF b] by (cases p1) auto
    have "l \<noteq> Null \<longrightarrow> l1 \<noteq> Null" using llrb_rotateLeft_left[OF b] l' p1 by auto
    then show ?thesis using m flipColors_left[of k1 c1 l1 r1] p1 by auto
  qed
qed

lemma balance_total: "\<exists>p' s'. balance p s = (p', s')"
  by (cases "balance p s") auto

lemma deleteMin_rec_total:
  "p \<noteq> Null \<Longrightarrow> \<exists>p' s'. deleteMin_rec cfg p s = Some (p', s')"
proof (induction cfg p s rule: deleteMin_rec.induct)
  case (1 cfg s)
  then show ?case by simp
next
  case (2 cfg k c l r s)
  show ?case
  proof (cases "l = Null")
    case True
    then show ?thesis by simp
  next
    case False
    let ?m = "if \<not> isRed l \<and> \<not> isRed (left l) then moveRedLeft (Node k c l r) s
               else Some (Node k c l r, s)"
    obtain p1 s1 where m: "?m = Some (p1, s1)" "p1 \<noteq> Null" "left p1 \<noteq> Null"
      using moveRedLeft_total[of k c l r s] False by (cases "\<not> isRed l \<and> \<not> isRed (left l)") auto
    from 2(1)[OF False m(1) refl m(3)] obtain l' s2 where
      d: "deleteMin_rec cfg (left p1) s1 = Some (l', s2)" by blast
    obtain p2 where p2: "set_left p1 l' = Some p2" using m(2) by (cases p1) auto
    show ?thesis using False m(1) d p2 by (simp del: moveRedLeft.simps)
  qed
qed

text \<open>
  The rotations, the colour flips and \<open>balance\<close> keep the keys of a subtree in order
  and change the rotation counters only.
\<close>

lemma rot_only_refl [simp]: "rot_only s s"
  by (simp add: rot_only_def)

lemma rot_only_trans: "rot_only s s1 \<Longrightarrow> rot_only s1 s2 \<Longrightarrow> rot_only s s2"
  by (simp add: rot_only_def)

lemma llrb_rotateLeft_frame:
  "llrb_rotateLeft p s = (p', s') \<Longrightarrow> inorder p' = inorder p \<and> rot_only s s'"
  by (cases "(p, s)" rule: llrb_rotateLeft.cases) (auto simp: rot_only_def)

lemma llrb_rotateRight_frame:
  "llrb_rotateRight p s = (p', s') \<Longrightarrow> inorder p' = inorder p \<and> rot_only s s'"
  by (cases "(p, s)" rule: llrb_rotateRight.cases) (auto simp: rot_only_def)

lemma inorder_flipColors [simp]: "inorder (flipColors p) = inorder p"
  by (cases p rule: flipColors.cases) auto

lemma fixUp_frame:
  assumes "fixUp p s = (p', s')"
  shows "inorder p' = inorder p \<and> rot_only s s'"
proof -
  obtain p1 s1 where a: "(if isRed (right p) \<and> \<not> isRed (left p) then llrb_rotateLeft p s else (p, s)) = (p1, s1)"
    by (cases "if isRed (right p) \<and> \<not> isRed (left p) then llrb_rotateLeft p s else (p, s)")
  obtain p2 s2 where b: "(if isRed (left p1) \<and> isRed (left (left p1)) then llrb_rotateRight p1 s1 else (p1, s1)) = (p2, s2)"
    by (cases "if isRed (left p1) \<and> isRed (left (left p1)) then llrb_rotateRight p1 s1 else (p1, s1)")
  have 1: "inorder p1 = inorder p \<and> rot_only s s1"
    using a llrb_rotateLeft_frame[of p s p1 s1] by (auto split: if_splits)
  have 2: "inorder p2 = inorder p1 \<and> rot_only s1 s2"
    using b llrb_rotateRight_frame[of p1 s1 p2 s2] by (auto split: if_splits)
  have 3: "p' = (if isRed (left p2) \<and> isRed (right p2) then flipColors p2 else p2)" "s' = s2"
    using assms a b by (simp_all add: fixUp_def)
  show ?thesis using 1 2 3 rot_only_trans by auto
qed

lemma balance_frame:
  "balance p s = (p', s') \<Longrightarrow> inorder p' = inorder p \<and> rot_only s s'"
  using fixUp_frame[of p s p' s'] by (cases p) auto

lemma moveRedLeft_frame:
  assumes "moveRedLeft p s = Some (p', s')"
  shows "inorder p' = inorder p \<and> rot_only s s'"
proof -
  obtain k c l r where f: "flipColors p = Node k c l r"
    using assms by (cases "flipColors p") auto
  have io: "inorder (Node k c l r) = inorder p" using f inorder_flipColors[of p] by simp
  show ?thesis
  proof (cases "r \<noteq> Null \<and> isRed (left r)")
    case False
    then have "p' = Node k c l r" "s' = s" using assms f by auto
    then show ?thesis using io by simp
  next
    case True
    obtain r' s1 where a: "llrb_rotateRight r s = (r', s1)" by (cases "llrb_rotateRight r s")
    obtain p1 s2 where b: "llrb_rotateLeft (Node k c l r') s1 = (p1, s2)"
      by (cases "llrb_rotateLeft (Node k c l r') s1")
    have "p' = flipColors p1" "s' = s2" using assms f True a b by simp_all
    then show ?thesis
      using llrb_rotateRight_frame[OF a] llrb_rotateLeft_frame[OF b] io rot_only_trans
      by auto
  qed
qed

lemma moveRedRight_frame:
  assumes "moveRedRight p s = Some (p', s')"
  shows "inorder p' = inorder p \<and> rot_only s s'"
proof -
  obtain k c l r where f: "flipColors p = Node k c l r"
    using assms by (cases "flipColors p") auto
  have io: "inorder (Node k c l r) = inorder p" using f inorder_flipColors[of p] by simp
  show ?thesis
  proof (cases "l \<noteq> Null \<and> isRed (left l)")
    case False
    then have "p' = Node k c l r" "s' = s" using assms f by auto
    then show ?thesis using io by simp
  next
    case True
    obtain p1 s1 where b: "llrb_rotateRight (Node k c l r) s = (p1, s1)"
      by (cases "llrb_rotateRight (Node k c l r) s")
    have "p' = flipColors p1" "s' = s1" using assms f True b by simp_all
    then show ?thesis using llrb_rotateRight_frame[OF b] io by auto
  qed
qed

lemma moveRedRight_total:
  "\<exists>p1 s1. moveRedRight (Node k c l r) s = Some (p1, s1) \<and> p1 \<noteq> Null"
proof -
  obtain k' c' l' r' where f: "flipColors (Node k c l r) = Node k' c' l' r'"
    using flipColors_left[of k c l r] by (cases "flipColors (Node k c l r)") auto
  show ?thesis
  proof (cases "l' \<noteq> Null \<and> isRed (left l')")
    case False
    then show ?thesis using f by auto
  next
    case True
    obtain p1 s1 where b: "llrb_rotateRight (Node k' c' l' r') s = (p1, s1)"
      by (cases "llrb_rotateRight (Node k' c' l' r') s")
    have "p1 \<noteq> Null" using llrb_rotateRight_nodes[OF b] by simp
    then have "flipColors p1 \<noteq> Null" using flipColors_nodes[of p1] by simp
    moreover have "moveRedRight (Node k c l r) s = Some (flipColors p1, s1)"
      using f True b by simp
    ultimately show ?thesis by blast
  qed
qed

lemma inorder_set_left: "set_left p q = Some p' \<Longrightarrow> inorder p' = inorder q @ key p # inorder (right p)"
  by (cases p) auto

lemma inorder_set_right: "set_right p q = Some p' \<Longrightarrow> inorder p' = inorder (left p) @ key p # inorder q"
  by (cases p) auto

lemma inorder_sel: "p \<noteq> Null \<Longrightarrow> inorder p = inorder (left p) @ key p # inorder (right p)"
  by (cases p) auto

lemma set_inorder_sel:
  "p \<noteq> Null \<Longrightarrow> set (inorder p) = insert (key p) (set (inorder (left p)) \<union> set (inorder (right p)))"
  by (cases p) auto

lemma llrb_erase_rec_absent:
  "x \<notin> set (inorder p) \<Longrightarrow>
     \<exists>p' s'. llrb_erase_rec cfg x p s = Some (p', s') \<and> inorder p' = inorder p
        \<and> root s' = root s \<and> count s' = count s \<and> freed s' = freed s
        \<and> news s' = news s \<and> deletes s' = deletes s \<and> llrb_a s' = llrb_a s \<and> \<not> llrb_r s'"
proof (induction cfg x p s rule: llrb_erase_rec.induct)
  case (1 cfg x s)
  then show ?case by simp
next
  case (2 cfg x k c l r s)
  let ?p = "Node k c l r"
  show ?case
  proof (cases "x < k")
    case True
    let ?m = "if \<not> isRed l \<and> l \<noteq> Null \<and> \<not> isRed (left l) then moveRedLeft ?p s else Some (?p, s)"
    obtain p1 s1 where m: "?m = Some (p1, s1)" "p1 \<noteq> Null"
      using moveRedLeft_total[of k c l r s] by (cases "\<not> isRed l \<and> l \<noteq> Null \<and> \<not> isRed (left l)") auto
    have f1: "inorder p1 = inorder ?p \<and> rot_only s s1"
      using m(1) moveRedLeft_frame[of ?p s p1 s1] by (auto split: if_splits)
    have xp1: "x \<notin> set (inorder p1)" using "2.prems" f1 by simp
    have nl: "x \<notin> set (inorder (left p1))"
      using xp1 set_inorder_sel[OF m(2)] by blast
    from "2.IH"(1)[OF True m(1) refl nl] obtain l' s2 where
      e: "llrb_erase_rec cfg x (left p1) s1 = Some (l', s2)" "inorder l' = inorder (left p1)"
        "root s2 = root s1" "count s2 = count s1" "freed s2 = freed s1" "news s2 = news s1"
        "deletes s2 = deletes s1" "llrb_a s2 = llrb_a s1" "\<not> llrb_r s2" by blast
    obtain p2 where p2: "set_left p1 l' = Some p2" using m(2) by (cases p1) auto
    obtain p3 s3 where b: "balance p2 s2 = (p3, s3)" by (cases "balance p2 s2")
    have run: "llrb_erase_rec cfg x ?p s = Some (p3, s3)"
      using True m(1) e(1) p2 b by (simp del: moveRedLeft.simps balance.simps)
    have io: "inorder p3 = inorder ?p"
      using balance_frame[OF b] inorder_set_left[OF p2] e(2) inorder_sel[OF m(2)] f1 by simp
    show ?thesis unfolding run using io balance_frame[OF b] f1 e(3-9)
      by (simp add: rot_only_def)
  next
    case False
    let ?q = "if isRed l then llrb_rotateRight ?p s else (?p, s)"
    obtain p1 s1 where q: "?q = (p1, s1)" by (cases ?q)
    have f1: "inorder p1 = inorder ?p \<and> rot_only s s1" "p1 \<noteq> Null"
      using q llrb_rotateRight_frame[of ?p s p1 s1] llrb_rotateRight_nodes[of ?p s p1 s1]
      by (auto split: if_splits)
    have xp1: "x \<notin> set (inorder p1)" using "2.prems" f1(1) by simp
    have k1: "x \<noteq> key p1" using xp1 set_inorder_sel[OF f1(2)] by blast
    let ?m = "if \<not> isRed (right p1) \<and> right p1 \<noteq> Null \<and> \<not> isRed (left (right p1))
              then moveRedRight p1 s1 else Some (p1, s1)"
    obtain k1 c1 l1 r1 where p1: "p1 = Node k1 c1 l1 r1" using f1(2) by (cases p1) auto
    obtain p2 s2 where m: "?m = Some (p2, s2)" "p2 \<noteq> Null"
      using moveRedRight_total[of k1 c1 l1 r1 s1] p1
      by (cases "\<not> isRed (right p1) \<and> right p1 \<noteq> Null \<and> \<not> isRed (left (right p1))") auto
    have f2: "inorder p2 = inorder p1 \<and> rot_only s1 s2"
      using m(1) moveRedRight_frame[of p1 s1 p2 s2] by (auto split: if_splits)
    have xp2: "x \<notin> set (inorder p2)" using xp1 f2 by simp
    have k2: "x \<noteq> key p2" and nr: "x \<notin> set (inorder (right p2))"
      using xp2 set_inorder_sel[OF m(2)] by blast+
    have c1: "\<not> (x = key p1 \<and> right p1 = Null)" using k1 by simp
    from "2.IH"(2)[OF False q[symmetric] refl c1 m(1) refl k2 nr] obtain r' s3 where
      e: "llrb_erase_rec cfg x (right p2) s2 = Some (r', s3)" "inorder r' = inorder (right p2)"
        "root s3 = root s2" "count s3 = count s2" "freed s3 = freed s2" "news s3 = news s2"
        "deletes s3 = deletes s2" "llrb_a s3 = llrb_a s2" "\<not> llrb_r s3" by blast
    obtain p3 where p3: "set_right p2 r' = Some p3" using m(2) by (cases p2) auto
    obtain p4 s4 where b: "balance p3 s3 = (p4, s4)" by (cases "balance p3 s3")
    have run: "llrb_erase_rec cfg x ?p s = Some (p4, s4)"
      using False q k1 m(1) k2 e(1) p3 b
      by (simp del: moveRedRight.simps balance.simps llrb_rotateRight.simps)
    have io: "inorder p4 = inorder ?p"
      using balance_frame[OF b] inorder_set_right[OF p3] e(2) inorder_sel[OF m(2)] f1(1) f2 by simp
    show ?thesis unfolding run using io balance_frame[OF b] f1(1) f2 e(3-9)
      by (simp add: rot_only_def)
  qed
qed

lemma llrb_erase_absent:
  assumes "k \<notin> keys (root s)"
  shows "\<exists>s'. llrb_erase cfg k s = Some (False, s') \<and> inorder (root s') = inorder (root s)
     \<and> llrb_size s' = llrb_size s \<and> freed s' = freed s"
proof (cases "root s")
  case Null
  then show ?thesis by (simp add: llrb_erase_def llrb_size_def)
next
  case (Node k0 c l r)
  let ?s0 = "s\<lparr>llrb_r := False\<rparr>"
  let ?p = "if \<not> isRed l \<and> \<not> isRed r then Node k0 llrb_RED l r else Node k0 c l r"
  have "k \<notin> set (inorder ?p)" using assms Node by (simp add: keys_def)
  from llrb_erase_rec_absent[OF this, of cfg ?s0] obtain t s1 where
    e: "llrb_erase_rec cfg k ?p ?s0 = Some (t, s1)" "inorder t = inorder ?p"
      "count s1 = count ?s0" "freed s1 = freed ?s0" "\<not> llrb_r s1" by blast
  have io: "inorder t = inorder (root s)" using e(2) Node by simp
  then obtain k' c' l' r' where t: "t = Node k' c' l' r'" using Node by (cases t) auto
  show ?thesis using Node e(1,3,4,5) io t
    by (simp add: llrb_erase_def llrb_size_def)
qed

lemma llrb_insert_rec_present:
  "bst p \<Longrightarrow> x \<in> keys p \<Longrightarrow>
     \<exists>p' s'. llrb_insert_rec cfg x p s = (p', s') \<and> inorder p' = inorder p
        \<and> count s' = count s \<and> freed s' = freed s \<and> news s' = news s \<and> \<not> llrb_a s'"
proof (induction p arbitrary: s)
  case Null
  then show ?case by simp
next
  case (Node k c l r)
  consider (lt) "x < k" | (gt) "k < x" | (eq) "x = k" by (metis less_linear)
  then show ?case
  proof cases
    case lt
    then have "x \<in> keys l" using Node.prems by auto
    from Node.IH(1)[OF _ this, of s] Node.prems(1) obtain l' s1 where
      a: "llrb_insert_rec cfg x l s = (l', s1)" "inorder l' = inorder l" "count s1 = count s"
        "freed s1 = freed s" "news s1 = news s" "\<not> llrb_a s1" by auto
    obtain p' s' where f: "fixUp (Node k c l' r) s1 = (p', s')" by (cases "fixUp (Node k c l' r) s1")
    have run: "llrb_insert_rec cfg x (Node k c l r) s = (p', s')" using lt a(1) f by simp
    show ?thesis unfolding run using fixUp_frame[OF f] a(2-6) by (simp add: rot_only_def)
  next
    case gt
    then have nlt: "\<not> x < k" by simp
    have "x \<in> keys r" using Node.prems gt by auto
    from Node.IH(2)[OF _ this, of s] Node.prems(1) obtain r' s1 where
      a: "llrb_insert_rec cfg x r s = (r', s1)" "inorder r' = inorder r" "count s1 = count s"
        "freed s1 = freed s" "news s1 = news s" "\<not> llrb_a s1" by auto
    obtain p' s' where f: "fixUp (Node k c l r') s1 = (p', s')" by (cases "fixUp (Node k c l r') s1")
    have run: "llrb_insert_rec cfg x (Node k c l r) s = (p', s')" using gt nlt a(1) f by simp
    show ?thesis unfolding run using fixUp_frame[OF f] a(2-6) by (simp add: rot_only_def)
  next
    case eq
    obtain p' s' where f: "fixUp (Node k c l r) (s\<lparr>llrb_a := False\<rparr>) = (p', s')"
      by (cases "fixUp (Node k c l r) (s\<lparr>llrb_a := False\<rparr>)")
    have run: "llrb_insert_rec cfg x (Node k c l r) s = (p', s')" using eq f by simp
    show ?thesis unfolding run using fixUp_frame[OF f] by (simp add: rot_only_def)
  qed
qed

lemma inorder_set_color: "set_color p c = Some p' \<Longrightarrow> inorder p' = inorder p"
  by (cases p) auto

lemma llrb_insert_present:
  assumes "bst (root s)" "k \<in> keys (root s)"
  shows "\<exists>s'. llrb_insert cfg k s = Some (False, s') \<and> inorder (root s') = inorder (root s)
     \<and> llrb_size s' = llrb_size s \<and> freed s' = freed s"
proof -
  let ?s0 = "s\<lparr>llrb_a := False\<rparr>"
  have nn: "root s \<noteq> Null" using assms(2) by auto
  from llrb_insert_rec_present[OF assms, of cfg ?s0] obtain t s1 where
    a: "llrb_insert_rec cfg k (root s) ?s0 = (t, s1)" "inorder t = inorder (root s)"
      "count s1 = count ?s0" "freed s1 = freed ?s0" "\<not> llrb_a s1" by blast
  have "t \<noteq> Null" using a(2) nn by (metis inorder_Nil_iff)
  then obtain t' where t': "set_color t llrb_BLACK = Some t'" by (cases t) auto
  have run: "llrb_insert cfg k s = Some (False, s1\<lparr>root := t'\<rparr>)"
    using nn a(1,5) t' by (simp add: llrb_insert_def)
  show ?thesis unfolding run using inorder_set_color[OF t'] a(2,3,4)
    by (simp add: llrb_size_def)
qed

lemma burb_insert_present:
  assumes "burb_ok t" "k \<in> keys (root t)"
  shows "\<exists>t'. burb_insert k t = Some (False, t') \<and> root t' = root t \<and> burb_size t' = burb_size t
      \<and> freed t' = Node k RED (case freed t of Null \<Rightarrow> Null | Node fk fc fl fr \<Rightarrow> fl) Null"
proof -
  have b: "bst (root t)" and nn: "root t \<noteq> Null" using assms by (auto simp: burb_ok_def)
  have f: "burb_insert_loop (root t) [] k = None"
    using burb_insert_loop_found[OF b, of "[]" k] assms(2) by simp
  show ?thesis using nn f
    by (cases "freed t") (simp_all add: burb_insert_def burb_newNode_def burb_size_def)
qed









lemma has_succ_recolor: "has_succ x nk (Node k c l r) = has_succ x nk (Node k c' l r)"
  by simp










text \<open>
  Claim C2 as it is stated fails for the left-leaning red-black tree.  After the insertion
  of 1, 2, 3 and 4 the root holds the key 2; \<open>erase(0)\<close>, of a key that is absent, returns
  false and leaves the four keys and \<open>size()\<close>, but the tree is another one: its root
  holds the key 3.  \<open>erase\<close> rotates and recolours nodes on its way down, before it
  knows that the key is absent.
\<close>

theorem llrb_erase_absent_counterexample:
  "map_option root (llrb_run default_build [Insert (1::int), Insert 2, Insert 3, Insert 4] llrbTree_init)
     = Some (Node 2 llrb_BLACK (Node 1 llrb_BLACK Null Null)
               (Node 4 llrb_BLACK (Node 3 llrb_RED Null Null) Null))
   \<and> llrb_run default_build [Insert (1::int), Insert 2, Insert 3, Insert 4] llrbTree_init
        \<bind> (\<lambda>s. llrb_erase default_build 0 s)
        \<bind> (\<lambda>(b, s'). Some (b, root s', llrb_size s'))
     = Some (False,
             Node 3 llrb_BLACK (Node 2 llrb_BLACK (Node 1 llrb_RED Null Null) Null)
               (Node 4 llrb_BLACK Null Null), 4)"
  by code_simp

text \<open>
  Claim C2, as amended.  In every state \<open>s\<close> of an AVL tree and every state \<open>t\<close> of a
  bottom-up red-black tree that a sequence of calls of \<open>insert\<close> and \<open>erase\<close> reaches
  from the empty tree, and for every key \<open>k\<close>: \<open>insert(k)\<close> returns true if and only
  if \<open>contains(k)\<close> was false, afterwards \<open>contains(k)\<close> is true and the keys are
  those before and \<open>k\<close>, and when \<open>k\<close> was present the tree and \<open>size()\<close> are
  unchanged (the bottom-up tree puts the node that it has prepared for \<open>k\<close> on its freed
  list); \<open>erase(k)\<close> returns true if and only if \<open>contains(k)\<close> was true, afterwards
  \<open>contains(k)\<close> is false and the keys are those before without \<open>k\<close>, and when
  \<open>k\<close> was absent the tree and \<open>size()\<close> are unchanged.  In every state \<open>u\<close> of a
  left-leaning red-black tree, \<open>erase(k)\<close> of an absent key returns false and leaves the
  keys in order, \<open>size()\<close> and the freed list unchanged, and so does \<open>insert(k)\<close> of
  a key that is present in an ordered tree; the tree itself may be another one.
\<close>

theorem insert_erase_results:
  assumes "avl_run cfg ops avlTree_init = Some s" "burb_run ops' burbTree_init = Some t"
  shows "(\<exists>s'. avl_insert cfg k s = Some (\<not> avl_contains s k, s') \<and> avl_contains s' k
            \<and> keys (root s') = insert k (keys (root s))
            \<and> (avl_contains s k \<longrightarrow> root s' = root s \<and> avl_size s' = avl_size s))
       \<and> (\<exists>s'. avl_erase cfg k s = Some (avl_contains s k, s') \<and> \<not> avl_contains s' k
            \<and> keys (root s') = keys (root s) - {k}
            \<and> (\<not> avl_contains s k \<longrightarrow> root s' = root s \<and> avl_size s' = avl_size s))
       \<and> (\<exists>t'. burb_insert k t = Some (\<not> burb_contains t k, t') \<and> burb_contains t' k
            \<and> keys (root t') = insert k (keys (root t))
            \<and> (burb_contains t k \<longrightarrow> root t' = root t \<and> burb_size t' = burb_size t
                  \<and> freed t' = Node k RED (case freed t of Null \<Rightarrow> Null
                                            | Node fk fc fl fr \<Rightarrow> fl) Null))
       \<and> (\<exists>t'. burb_erase k t = Some (burb_contains t k, t') \<and> \<not> burb_contains t' k
            \<and> keys (root t') = keys (root t) - {k}
            \<and> (\<not> burb_contains t k \<longrightarrow> t' = t))
       \<and> (k \<notin> keys (root u) \<longrightarrow>
            (\<exists>u'. llrb_erase cfg' k u = Some (False, u') \<and> inorder (root u') = inorder (root u)
               \<and> llrb_size u' = llrb_size u \<and> freed u' = freed u))
       \<and> (bst (root u) \<and> k \<in> keys (root u) \<longrightarrow>
            (\<exists>u'. llrb_insert cfg' k u = Some (False, u') \<and> inorder (root u') = inorder (root u)
               \<and> llrb_size u' = llrb_size u \<and> freed u' = freed u))"
proof -
  have s: "avl_ok s" using avl_reach_ok[OF assms(1)] by simp
  have t: "burb_ok t" using burb_reach_ok[OF assms(2)] by simp
  have ca: "avl_contains u y \<longleftrightarrow> y \<in> keys (root u)" if "avl_ok u" for u :: "'a avlTree" and y
    using that by (simp add: avl_contains_def avl_ok_def contains_loop_iff)
  have cb: "burb_contains u y \<longleftrightarrow> y \<in> keys (root u)" if "burb_ok u" for u :: "'a burbTree" and y
    using that by (cases "root u = Null") (auto simp: burb_contains_def burb_ok_def contains_loop_iff)
  from avl_insert_ok[OF s, of cfg k] obtain s1 where
    1: "avl_insert cfg k s = Some (k \<notin> keys (root s), s1)" "avl_ok s1"
      "keys (root s1) = insert k (keys (root s))"
      "k \<in> keys (root s) \<longrightarrow> root s1 = root s \<and> count s1 = count s" by blast
  from avl_erase_ok[OF s, of cfg k] obtain s2 where
    2: "avl_erase cfg k s = Some (k \<in> keys (root s), s2)" "avl_ok s2"
      "keys (root s2) = keys (root s) - {k}"
      "k \<notin> keys (root s) \<longrightarrow> root s2 = root s \<and> count s2 = count s \<and> freed s2 = freed s \<and> deletes s2 = deletes s"
    by blast
  from burb_insert_ok[OF t, of k] obtain t1 where
    3: "burb_insert k t = Some (k \<notin> keys (root t), t1)" "burb_ok t1"
      "keys (root t1) = insert k (keys (root t))"
      "k \<in> keys (root t) \<longrightarrow> root t1 = root t \<and> count t1 = count t" by blast
  have dup: "freed t1 = Node k RED (case freed t of Null \<Rightarrow> Null | Node fk fc fl fr \<Rightarrow> fl) Null"
    if "k \<in> keys (root t)"
    using burb_insert_present[OF t that] 3(1) by auto
  from burb_erase_ok[OF t, of k] obtain t2 where
    4: "burb_erase k t = Some (k \<in> keys (root t), t2)" "burb_ok t2"
      "keys (root t2) = keys (root t) - {k}" "k \<notin> keys (root t) \<longrightarrow> t2 = t" by blast
  have A: "\<exists>s'. avl_insert cfg k s = Some (\<not> avl_contains s k, s') \<and> avl_contains s' k
            \<and> keys (root s') = insert k (keys (root s))
            \<and> (avl_contains s k \<longrightarrow> root s' = root s \<and> avl_size s' = avl_size s)"
    using 1 by (intro exI[of _ s1]) (simp add: ca[OF s] ca[OF 1(2)] avl_size_def)
  have B: "\<exists>s'. avl_erase cfg k s = Some (avl_contains s k, s') \<and> \<not> avl_contains s' k
            \<and> keys (root s') = keys (root s) - {k}
            \<and> (\<not> avl_contains s k \<longrightarrow> root s' = root s \<and> avl_size s' = avl_size s)"
    using 2 by (intro exI[of _ s2]) (simp add: ca[OF s] ca[OF 2(2)] avl_size_def)
  have C: "\<exists>t'. burb_insert k t = Some (\<not> burb_contains t k, t') \<and> burb_contains t' k
            \<and> keys (root t') = insert k (keys (root t))
            \<and> (burb_contains t k \<longrightarrow> root t' = root t \<and> burb_size t' = burb_size t
                  \<and> freed t' = Node k RED (case freed t of Null \<Rightarrow> Null
                                            | Node fk fc fl fr \<Rightarrow> fl) Null)"
    using 3 dup by (intro exI[of _ t1]) (simp add: cb[OF t] cb[OF 3(2)] burb_size_def)
  have D: "\<exists>t'. burb_erase k t = Some (burb_contains t k, t') \<and> \<not> burb_contains t' k
            \<and> keys (root t') = keys (root t) - {k}
            \<and> (\<not> burb_contains t k \<longrightarrow> t' = t)"
    using 4 by (intro exI[of _ t2]) (simp add: cb[OF t] cb[OF 4(2)])
  have E: "k \<notin> keys (root u) \<longrightarrow>
            (\<exists>u'. llrb_erase cfg' k u = Some (False, u') \<and> inorder (root u') = inorder (root u)
               \<and> llrb_size u' = llrb_size u \<and> freed u' = freed u)"
    using llrb_erase_absent[of k u cfg'] by blast
  have F: "bst (root u) \<and> k \<in> keys (root u) \<longrightarrow>
            (\<exists>u'. llrb_insert cfg' k u = Some (False, u') \<and> inorder (root u') = inorder (root u)
               \<and> llrb_size u' = llrb_size u \<and> freed u' = freed u)"
    using llrb_insert_present[of u k cfg'] by blast
  show ?thesis using A B C D E F by blast
qed

text \<open>
  The hypotheses of C2 hold for the AVL tree and the bottom-up red-black tree with the
  keys 1 and 2 and for the left-leaning red-black tree with the keys 1 to 4: a duplicate
  insertion and the erasure of an absent key return false, the insertion of a new key and
  the erasure of a present key return true.
\<close>

theorem insert_erase_results_witness:
  "\<exists>s t u. avl_run default_build [Insert (1::int), Insert 2] avlTree_init = Some s
      \<and> burb_run [Insert (1::int), Insert 2] burbTree_init = Some t
      \<and> llrb_run default_build [Insert (1::int), Insert 2, Insert 3, Insert 4] llrbTree_init = Some u
      \<and> (\<exists>s'. avl_insert default_build 2 s = Some (False, s') \<and> root s' = root s
              \<and> avl_size s' = avl_size s)
      \<and> (\<exists>s'. avl_insert default_build 3 s = Some (True, s') \<and> avl_contains s' 3)
      \<and> (\<exists>s'. avl_erase default_build 3 s = Some (False, s') \<and> root s' = root s
              \<and> avl_size s' = avl_size s)
      \<and> (\<exists>s'. avl_erase default_build 2 s = Some (True, s') \<and> \<not> avl_contains s' 2)
      \<and> (\<exists>t'. burb_insert 2 t = Some (False, t') \<and> root t' = root t
              \<and> burb_size t' = burb_size t \<and> freed t' = Node 2 RED Null Null)
      \<and> (\<exists>t'. burb_insert 3 t = Some (True, t') \<and> burb_contains t' 3)
      \<and> burb_erase 3 t = Some (False, t)
      \<and> (\<exists>t'. burb_erase 2 t = Some (True, t') \<and> \<not> burb_contains t' 2)
      \<and> 0 \<notin> keys (root u) \<and> bst (root u) \<and> 4 \<in> keys (root u)
      \<and> (\<exists>u'. llrb_erase default_build 0 u = Some (False, u')
             \<and> inorder (root u') = [1, 2, 3, 4] \<and> llrb_size u' = llrb_size u)
      \<and> (\<exists>u'. llrb_insert default_build 4 u = Some (False, u')
             \<and> inorder (root u') = [1, 2, 3, 4] \<and> llrb_size u' = llrb_size u)"
proof -
  let ?ops = "[Insert (1::int), Insert 2]"
  obtain s where s: "avl_run default_build ?ops avlTree_init = Some s" "avl_ok s"
    "keys (root s) = live_keys ?ops {}"
    using avl_run_ok[OF avl_ok_init, of default_build ?ops] by (auto simp: avlTree_init_def)
  obtain t where t: "burb_run ?ops burbTree_init = Some t" "burb_ok t"
    "keys (root t) = live_keys ?ops {}"
    using burb_run_ok[OF burb_ok_init, of ?ops] by (auto simp: burbTree_init_def)
  have "map_option freed (burb_run ?ops burbTree_init) = Some Null" by code_simp
  then have ft: "freed t = Null" using t(1) by simp
  have "map_option root (llrb_run default_build [Insert (1::int), Insert 2, Insert 3, Insert 4] llrbTree_init)
      = Some (Node 2 llrb_BLACK (Node 1 llrb_BLACK Null Null)
               (Node 4 llrb_BLACK (Node 3 llrb_RED Null Null) Null))" by code_simp
  then obtain u where u: "llrb_run default_build [Insert (1::int), Insert 2, Insert 3, Insert 4] llrbTree_init = Some u"
    "root u = Node 2 llrb_BLACK (Node 1 llrb_BLACK Null Null)
               (Node 4 llrb_BLACK (Node 3 llrb_RED Null Null) Null)" by auto
  have hu: "0 \<notin> keys (root u)" "bst (root u)" "4 \<in> keys (root u)"
    "inorder (root u) = [1, 2, 3, 4]" using u(2) by simp_all
  have cs: "avl_contains s 2" "\<not> avl_contains s 3"
    using s(2,3) by (simp_all add: avl_contains_def avl_ok_def contains_loop_iff)
  have ct: "burb_contains t 2" "\<not> burb_contains t 3"
    using t(2,3) by (auto simp: burb_contains_def burb_ok_def contains_loop_iff)
  note r2 = insert_erase_results[OF s(1) t(1), of 2 u default_build]
  note r3 = insert_erase_results[OF s(1) t(1), of 3 u default_build]
  note r0 = insert_erase_results[OF s(1) t(1), of 0 u default_build]
  note r4 = insert_erase_results[OF s(1) t(1), of 4 u default_build]
  have 1: "\<exists>s'. avl_insert default_build 2 s = Some (False, s') \<and> root s' = root s
              \<and> avl_size s' = avl_size s" using r2 cs(1) by auto
  have 2: "\<exists>s'. avl_insert default_build 3 s = Some (True, s') \<and> avl_contains s' 3"
    using r3 cs(2) by auto
  have 3: "\<exists>s'. avl_erase default_build 3 s = Some (False, s') \<and> root s' = root s
              \<and> avl_size s' = avl_size s" using r3 cs(2) by auto
  have 4: "\<exists>s'. avl_erase default_build 2 s = Some (True, s') \<and> \<not> avl_contains s' 2"
    using r2 cs(1) by auto
  have 5: "\<exists>t'. burb_insert 2 t = Some (False, t') \<and> root t' = root t
              \<and> burb_size t' = burb_size t \<and> freed t' = Node 2 RED Null Null"
    using r2 ct(1) ft by auto
  have 6: "\<exists>t'. burb_insert 3 t = Some (True, t') \<and> burb_contains t' 3"
    using r3 ct(2) by auto
  have 7: "burb_erase 3 t = Some (False, t)" using r3 ct(2) by auto
  have 8: "\<exists>t'. burb_erase 2 t = Some (True, t') \<and> \<not> burb_contains t' 2"
    using r2 ct(1) by auto
  have 9: "\<exists>u'. llrb_erase default_build 0 u = Some (False, u')
             \<and> inorder (root u') = [1, 2, 3, 4] \<and> llrb_size u' = llrb_size u"
    using r0 hu(1,4) by auto
  have 10: "\<exists>u'. llrb_insert default_build 4 u = Some (False, u')
             \<and> inorder (root u') = [1, 2, 3, 4] \<and> llrb_size u' = llrb_size u"
    using r4 hu(2,3,4) by auto
  show ?thesis using s(1) t(1) u(1) hu(1,2,3) 1 2 3 4 5 6 7 8 9 10 by blast
qed

text \<open>
  Claim C1 fails for the left-leaning red-black tree.  In the default build, after
  \<open>insert(1)\<close>, \<open>erase(1)\<close> and \<open>insert(2)\<close> on an empty tree the root is RED:
  \<open>insert\<close> calls \<open>newNode(x, BLACK)\<close> for the root of an empty tree, and
  \<open>newNode\<close> makes a node that it takes from the freed list RED, whatever the colour
  that is asked for.
\<close>

theorem llrb_root_red_after_reinsert:
  "map_option (\<lambda>s. (root s, isRed (root s), count s))
     (llrb_run default_build [Insert (1::int), Erase 1, Insert 2] llrbTree_init)
   = Some (Node 2 llrb_RED Null Null, True, 1)"
  by code_simp

end
